theory Spec2Isabelle
  imports Main
begin

section \<open>DictBST.h: an unbalanced binary search tree dictionary on a pointer heap\<close>

text \<open>
  The class \<open>DictBST<KeyType, ValueType>\<close> owns a raw pointer \<open>root\<close> to a
  \<open>Node\<close>; every node holds \<open>data\<close> (the key), \<open>value\<close>, and three raw pointers
  \<open>left\<close>, \<open>right\<close>, \<open>back\<close>. The code mutates nodes in place, walks the
  \<open>back\<close> pointers in the iterator, and copies, swaps and nulls pointers, so the
  model is an explicit store: addresses are natural numbers, a pointer is an
  \<open>addr option\<close> (\<open>None\<close> is \<open>nullptr\<close>), the heap maps an address to the node
  allocated there, and each \<open>DictBST\<close> object is identified by a number whose
  \<open>root\<close> field lives in the state.
\<close>

subsection \<open>Data model\<close>

type_synonym addr = nat

text \<open>
  Field \<open>val\<close> is the source's \<open>value\<close> and \<open>bck\<close> is the source's \<open>back\<close>
  (both names are reserved words of the proof language).
\<close>

record ('k, 'v) Node =
  data :: 'k
  val :: 'v
  left :: "addr option"
  right :: "addr option"
  bck :: "addr option"

text \<open>
  \<open>heap\<close> is the free store, \<open>nxt\<close> the next address \<open>new\<close> hands out, and
  \<open>root s d\<close> the \<open>root\<close> member of the dictionary object \<open>d\<close>.
\<close>

record ('k, 'v) state =
  heap :: "addr \<Rightarrow> ('k, 'v) Node option"
  nxt :: addr
  root :: "nat \<Rightarrow> addr option"

text \<open>
  What a call can end in besides a normal return. \<open>NullDeref\<close>: \<open>p->f\<close> with
  \<open>p == nullptr\<close>. \<open>Dangling\<close>: \<open>p->f\<close> where \<open>p\<close> points to a deleted node.
  \<open>UninitRead\<close>: the value of a local pointer is read before anything was
  assigned to it. \<open>InvalidArgument\<close>: the exception
  \<open>std::invalid_argument("Not in Dictionary")\<close> (the specification's
  \<open>KeyNotFound\<close>).
\<close>

datatype error = NullDeref | Dangling | UninitRead | InvalidArgument

text \<open>
  A loop over the heap need not terminate (the store may hold a cycle), so every
  function that loops or recurses returns an \<open>option\<close>: \<open>None\<close> is "does not
  return", \<open>Some (Inl e)\<close> is the failure \<open>e\<close>, \<open>Some (Inr x)\<close> the result.
\<close>

type_synonym 'a result = "(error + 'a) option"

text \<open>Sequencing of calls: the first failure (or non-return) ends the run.\<close>

definition bind_res :: "'a result \<Rightarrow> ('a \<Rightarrow> 'b result) \<Rightarrow> 'b result" where
  "bind_res m f =
     (case m of None \<Rightarrow> None | Some (Inl e) \<Rightarrow> Some (Inl e) | Some (Inr x) \<Rightarrow> f x)"

definition ok :: "'a \<Rightarrow> 'a result" where
  "ok x = Some (Inr x)"

definition fail :: "error \<Rightarrow> 'a result" where
  "fail e = Some (Inl e)"

lemma bind_res_bind:
  "bind_res m f = Option.bind m (\<lambda>r. case r of Inl e \<Rightarrow> Some (Inl e) | Inr x \<Rightarrow> f x)"
  by (simp add: bind_res_def split: option.splits sum.splits)

lemma bind_res_mono [partial_function_mono]:
  assumes "mono_option B" and "\<And>y. mono_option (\<lambda>f. C y f)"
  shows "mono_option (\<lambda>f. bind_res (B f) (\<lambda>y. C y f))"
  unfolding bind_res_bind
proof (rule bind_mono [OF assms(1)])
  fix y :: "error + 'c"
  show "mono_option (\<lambda>f. case y of Inl e \<Rightarrow> Some (Inl e) | Inr x \<Rightarrow> C x f)"
  proof (cases y)
    case (Inl e)
    then show ?thesis by (simp add: monotone_def flat_ord_def)
  next
    case (Inr x)
    then show ?thesis by (simp add: assms(2))
  qed
qed

text \<open>The state right after \<open>DictBST()\<close> ran for every dictionary object.\<close>

definition empty_state :: "('k, 'v) state" where
  "empty_state = \<lparr>heap = (\<lambda>_. None), nxt = 0, root = (\<lambda>_. None)\<rparr>"

text \<open>\<open>new Node(...)\<close>: the node is stored at a fresh address, which is returned.\<close>

definition new_node :: "('k, 'v) Node \<Rightarrow> ('k, 'v) state \<Rightarrow> addr \<times> ('k, 'v) state" where
  "new_node n s = (nxt s, s\<lparr>heap := (heap s)(nxt s \<mapsto> n), nxt := Suc (nxt s)\<rparr>)"

text \<open>Assignment to the fields of the node at an address; \<open>delete\<close>; assignment
  to \<open>root\<close>.\<close>

definition set_node :: "addr \<Rightarrow> ('k, 'v) Node \<Rightarrow> ('k, 'v) state \<Rightarrow> ('k, 'v) state" where
  "set_node a n s = s\<lparr>heap := (heap s)(a \<mapsto> n)\<rparr>"

definition delete_node :: "addr \<Rightarrow> ('k, 'v) state \<Rightarrow> ('k, 'v) state" where
  "delete_node a s = s\<lparr>heap := (heap s)(a := None)\<rparr>"

definition set_root :: "nat \<Rightarrow> addr option \<Rightarrow> ('k, 'v) state \<Rightarrow> ('k, 'v) state" where
  "set_root d p s = s\<lparr>root := (root s)(d := p)\<rparr>"

text \<open>\<open>p->...\<close>: the node a pointer points to.\<close>

definition deref :: "('k, 'v) state \<Rightarrow> addr option \<Rightarrow> ('k, 'v) Node result" where
  "deref s p =
     (case p of
        None \<Rightarrow> fail NullDeref
      | Some a \<Rightarrow> (case heap s a of None \<Rightarrow> fail Dangling | Some n \<Rightarrow> ok n))"

text \<open>
  A \<open>Node**\<close> or \<open>Node*&\<close>: the place a node pointer is stored in, which is the
  \<open>root\<close> member of a dictionary or the \<open>left\<close> or \<open>right\<close> member of a node.
\<close>

datatype slot = RootSlot nat | LeftSlot addr | RightSlot addr

definition read_slot :: "slot \<Rightarrow> ('k, 'v) state \<Rightarrow> addr option result" where
  "read_slot sl s =
     (case sl of
        RootSlot d \<Rightarrow> ok (root s d)
      | LeftSlot a \<Rightarrow> bind_res (deref s (Some a)) (\<lambda>n. ok (left n))
      | RightSlot a \<Rightarrow> bind_res (deref s (Some a)) (\<lambda>n. ok (right n)))"

definition write_slot :: "slot \<Rightarrow> addr option \<Rightarrow> ('k, 'v) state \<Rightarrow> ('k, 'v) state result" where
  "write_slot sl p s =
     (case sl of
        RootSlot d \<Rightarrow> ok (set_root d p s)
      | LeftSlot a \<Rightarrow> bind_res (deref s (Some a)) (\<lambda>n. ok (set_node a (n\<lparr>left := p\<rparr>) s))
      | RightSlot a \<Rightarrow> bind_res (deref s (Some a)) (\<lambda>n. ok (set_node a (n\<lparr>right := p\<rparr>) s)))"

text \<open>The constructors of \<open>Node\<close> that the class calls: \<open>Node(d, v)\<close>,
  \<open>Node(d, b)\<close> and \<open>Node(d, v, b)\<close>. \<open>Node(d, b)\<close> leaves \<open>value\<close>
  default-constructed: \<open>dv\<close> stands for that value.\<close>

definition Node_kv :: "'k \<Rightarrow> 'v \<Rightarrow> ('k, 'v) Node" where
  "Node_kv d v = \<lparr>data = d, val = v, left = None, right = None, bck = None\<rparr>"

definition Node_kb :: "'v \<Rightarrow> 'k \<Rightarrow> addr option \<Rightarrow> ('k, 'v) Node" where
  "Node_kb dv d b = \<lparr>data = d, val = dv, left = None, right = None, bck = b\<rparr>"

definition Node_kvb :: "'k \<Rightarrow> 'v \<Rightarrow> addr option \<Rightarrow> ('k, 'v) Node" where
  "Node_kvb d v b = \<lparr>data = d, val = v, left = None, right = None, bck = b\<rparr>"

definition isLeaf :: "('k, 'v) Node \<Rightarrow> bool" where
  "isLeaf n = (if left n = None \<and> right n = None then True else False)"

definition hasLeft :: "('k, 'v) Node \<Rightarrow> bool" where
  "hasLeft n = (if left n = None then False else True)"

definition hasRight :: "('k, 'v) Node \<Rightarrow> bool" where
  "hasRight n = (if right n = None then False else True)"

text \<open>\<open>maxKey\<close> and \<open>minKey\<close> are member functions: \<open>p\<close> starts as \<open>this\<close>.\<close>

partial_function (option) maxKey :: "('k, 'v) state \<Rightarrow> addr \<Rightarrow> addr result" where
  "maxKey s p =
     bind_res (deref s (Some p)) (\<lambda>n.
       case right n of None \<Rightarrow> ok p | Some r \<Rightarrow> maxKey s r)"

partial_function (option) minKey :: "('k, 'v) state \<Rightarrow> addr \<Rightarrow> addr result" where
  "minKey s p =
     bind_res (deref s (Some p)) (\<lambda>n.
       case left n of None \<Rightarrow> ok p | Some l \<Rightarrow> minKey s l)"

subsection \<open>has\<close>

text \<open>The loop of \<open>has\<close>, with \<open>p\<close> as it stands at the loop head.\<close>

partial_function (option) has_loop ::
  "('k::linorder, 'v) state \<Rightarrow> addr option \<Rightarrow> 'k \<Rightarrow> bool result" where
  "has_loop s p key =
     (if p = None then ok False
      else bind_res (deref s p) (\<lambda>n.
        if data n = key then ok True
        else if key < data n then has_loop s (left n) key
        else has_loop s (right n) key))"

definition has :: "nat \<Rightarrow> 'k \<Rightarrow> ('k::linorder, 'v) state \<Rightarrow> bool result" where
  "has d key s = has_loop s (root s d) key"

subsection \<open>add\<close>

text \<open>The \<open>while (!(p->data == key))\<close> loop of \<open>add\<close>; \<open>p\<close> is not null there.\<close>

partial_function (option) add_loop ::
  "'k::linorder \<Rightarrow> 'v \<Rightarrow> addr \<Rightarrow> ('k, 'v) state \<Rightarrow> ('k, 'v) state result" where
  "add_loop key v p s =
     bind_res (deref s (Some p)) (\<lambda>n.
       if data n = key then ok s
       else if key < data n then
         (case left n of
            None \<Rightarrow>
              (case new_node (Node_kvb key v (Some p)) s of
                 (a, s1) \<Rightarrow> add_loop key v a (set_node p (n\<lparr>left := Some a\<rparr>) s1))
          | Some l \<Rightarrow> add_loop key v l s)
       else
         (case right n of
            None \<Rightarrow>
              (case new_node (Node_kvb key v (Some p)) s of
                 (a, s1) \<Rightarrow> add_loop key v a (set_node p (n\<lparr>right := Some a\<rparr>) s1))
          | Some r \<Rightarrow> add_loop key v r s))"

definition add :: "nat \<Rightarrow> 'k::linorder \<Rightarrow> 'v \<Rightarrow> ('k, 'v) state \<Rightarrow> ('k, 'v) state result" where
  "add d key v s =
     (case root s d of
        None \<Rightarrow> (case new_node (Node_kv key v) s of (a, s1) \<Rightarrow> ok (set_root d (Some a) s1))
      | Some p \<Rightarrow> add_loop key v p s)"

subsection \<open>remove\<close>

text \<open>
  The search loop of \<open>remove\<close>. \<open>pRemove\<close> is the slot the loop stands at.
  The local \<open>Node* remove\<close> is declared without an initialiser and assigned
  only at the end of the loop body: \<open>rem = None\<close> is "never assigned",
  \<open>rem = Some q\<close> is "holds the pointer \<open>q\<close>".
\<close>

partial_function (option) remove_loop ::
  "'k::linorder \<Rightarrow> slot \<Rightarrow> addr option option \<Rightarrow> ('k, 'v) state
     \<Rightarrow> (slot \<times> addr option option) result" where
  "remove_loop key pRemove rem s =
     bind_res (read_slot pRemove s) (\<lambda>p.
       if p = None then ok (pRemove, rem)
       else bind_res (deref s p) (\<lambda>n.
         if data n \<noteq> key then
           (if key < data n
            then bind_res (read_slot (LeftSlot (the p)) s) (\<lambda>q.
                   remove_loop key (LeftSlot (the p)) (Some q) s)
            else bind_res (read_slot (RightSlot (the p)) s) (\<lambda>q.
                   remove_loop key (RightSlot (the p)) (Some q) s))
         else ok (pRemove, rem)))"

text \<open>
  \<open>remove\<close>: after the loop, \<open>if (remove == nullptr)\<close> reads the local, which
  is a read of an uninitialised pointer when the loop body never ran. The
  non-leaf branch reads the replacement key, calls \<open>remove\<close> on it and then
  assigns \<open>remove->data\<close> (and nothing else); the leaf branch deletes the node
  and nulls the slot.
\<close>

partial_function (option) remove ::
  "nat \<Rightarrow> 'k::linorder \<Rightarrow> ('k, 'v) state \<Rightarrow> ('k, 'v) state result" where
  "remove d key s =
     bind_res (remove_loop key (RootSlot d) None s) (\<lambda>(pRemove, rem).
       case rem of
         None \<Rightarrow> fail UninitRead
       | Some r \<Rightarrow>
           if r = None then ok s
           else bind_res (deref s r) (\<lambda>n.
             if \<not> isLeaf n then
               bind_res (if left n \<noteq> None
                         then bind_res (deref s (left n)) (\<lambda>_. maxKey s (the (left n)))
                         else bind_res (deref s (right n)) (\<lambda>_. minKey s (the (right n)))) (\<lambda>m.
               bind_res (deref s (Some m)) (\<lambda>nm.
               bind_res (remove d (data nm) s) (\<lambda>s1.
               bind_res (deref s1 r) (\<lambda>n1.
                 ok (set_node (the r) (n1\<lparr>data := data nm\<rparr>) s1)))))
             else write_slot pRemove None (delete_node (the r) s)))"

subsection \<open>get\<close>

text \<open>
  The loop of the \<open>has(key)\<close> branch of both \<open>get\<close>s, followed by the final
  \<open>return p->value\<close> that is reached with \<open>p == nullptr\<close> when the loop runs
  out. The result is the node whose \<open>value\<close> member the returned reference
  refers to.
\<close>

partial_function (option) get_found ::
  "('k::linorder, 'v) state \<Rightarrow> addr option \<Rightarrow> 'k \<Rightarrow> addr result" where
  "get_found s p key =
     (if p = None then fail NullDeref
      else bind_res (deref s p) (\<lambda>n.
        if data n = key then ok (the p)
        else if key < data n then get_found s (left n) key
        else get_found s (right n) key))"

text \<open>
  The loop of the else branch of the mutable \<open>get\<close>, again followed by the
  final \<open>return p->value\<close>. Both insertion branches return
  \<open>p->right->value\<close>.
\<close>

partial_function (option) get_insert ::
  "'v \<Rightarrow> 'k::linorder \<Rightarrow> addr option \<Rightarrow> ('k, 'v) state \<Rightarrow> (addr \<times> ('k, 'v) state) result" where
  "get_insert dv key p s =
     (if p = None then fail NullDeref
      else bind_res (deref s p) (\<lambda>n.
        if key < data n then
          (if hasLeft n then get_insert dv key (left n) s
           else
             (case new_node (Node_kb dv key p) s of
                (a, s1) \<Rightarrow>
                  bind_res (ok (set_node (the p) (n\<lparr>left := Some a\<rparr>) s1)) (\<lambda>s2.
                  bind_res (deref s2 p) (\<lambda>n2.
                  bind_res (deref s2 (right n2)) (\<lambda>_. ok (the (right n2), s2))))))
        else
          (if hasRight n then get_insert dv key (right n) s
           else
             (case new_node (Node_kb dv key p) s of
                (a, s1) \<Rightarrow>
                  bind_res (ok (set_node (the p) (n\<lparr>right := Some a\<rparr>) s1)) (\<lambda>s2.
                  bind_res (deref s2 p) (\<lambda>n2.
                  bind_res (deref s2 (right n2)) (\<lambda>_. ok (the (right n2), s2))))))))"

text \<open>The mutable \<open>get\<close>: the reference it returns (as the node that holds the
  value) and the state it leaves.\<close>

definition get ::
  "'v \<Rightarrow> nat \<Rightarrow> 'k::linorder \<Rightarrow> ('k, 'v) state \<Rightarrow> (addr \<times> ('k, 'v) state) result" where
  "get dv d key s =
     bind_res (has d key s) (\<lambda>h.
       if h then bind_res (get_found s (root s d) key) (\<lambda>a. ok (a, s))
       else get_insert dv key (root s d) s)"

text \<open>The const \<open>get\<close>: it has no access to the state but to read it, and the
  model returns the value that the returned const reference reads.\<close>

definition get_const :: "nat \<Rightarrow> 'k::linorder \<Rightarrow> ('k, 'v) state \<Rightarrow> 'v result" where
  "get_const d key s =
     bind_res (has d key s) (\<lambda>h.
       if h then
         bind_res (get_found s (root s d) key) (\<lambda>a.
         bind_res (deref s (Some a)) (\<lambda>n. ok (val n)))
       else fail InvalidArgument)"

subsection \<open>const_iterator, begin, end\<close>

text \<open>A \<open>const_iterator\<close> is its member \<open>current\<close>. \<open>operator*\<close>:\<close>

definition iter_deref :: "('k, 'v) state \<Rightarrow> addr option \<Rightarrow> 'k result" where
  "iter_deref s current = bind_res (deref s current) (\<lambda>n. ok (data n))"

text \<open>The \<open>while\<close> loop of \<open>operator++\<close>; \<open>current\<close> is not null there.\<close>

partial_function (option) climb :: "('k, 'v) state \<Rightarrow> addr \<Rightarrow> addr result" where
  "climb s current =
     bind_res (deref s (Some current)) (\<lambda>n.
       if bck n \<noteq> None then
         bind_res (deref s (bck n)) (\<lambda>nb.
           if Some current = right nb then climb s (the (bck n)) else ok current)
       else ok current)"

definition iter_incr :: "('k, 'v) state \<Rightarrow> addr option \<Rightarrow> addr option result" where
  "iter_incr s current =
     bind_res (deref s current) (\<lambda>n.
       if hasRight n then
         bind_res (deref s (right n)) (\<lambda>_.
         bind_res (minKey s (the (right n))) (\<lambda>m. ok (Some m)))
       else if bck n = None then ok None
       else
         bind_res (climb s (the current)) (\<lambda>c.
         bind_res (deref s (Some c)) (\<lambda>nc. ok (bck nc))))"

text \<open>\<open>operator!=\<close>, \<open>begin()\<close> with its loop, \<open>begin(k)\<close> and \<open>end()\<close>.\<close>

definition iter_neq :: "addr option \<Rightarrow> addr option \<Rightarrow> bool" where
  "iter_neq this rhs = (if rhs = this then False else True)"

partial_function (option) begin_loop :: "('k, 'v) state \<Rightarrow> addr option \<Rightarrow> addr option result" where
  "begin_loop s p =
     bind_res (deref s p) (\<lambda>n.
       if hasLeft n then begin_loop s (left n) else ok p)"

definition begin_it :: "nat \<Rightarrow> ('k, 'v) state \<Rightarrow> addr option result" where
  "begin_it d s = begin_loop s (root s d)"

partial_function (option) begin_key_loop ::
  "('k::linorder, 'v) state \<Rightarrow> addr option \<Rightarrow> 'k \<Rightarrow> addr option result" where
  "begin_key_loop s p k =
     (if p = None then ok p
      else bind_res (deref s p) (\<lambda>n.
        if data n = k then ok p
        else if k < data n then begin_key_loop s (left n) k
        else begin_key_loop s (right n) k))"

definition begin_key :: "nat \<Rightarrow> 'k::linorder \<Rightarrow> ('k, 'v) state \<Rightarrow> addr option result" where
  "begin_key d k s = begin_key_loop s (root s d) k"

definition end_it :: "addr option" where
  "end_it = None"

text \<open>
  The iteration the class is written for,
  \<open>for (it = d.begin(); it != d.end(); ++it) keys.push_back(*it);\<close>
  as the list of keys it collects.
\<close>

partial_function (option) iterate :: "('k, 'v) state \<Rightarrow> addr option \<Rightarrow> 'k list result" where
  "iterate s it =
     (if iter_neq it end_it then
        bind_res (iter_deref s it) (\<lambda>k.
        bind_res (iter_incr s it) (\<lambda>it1.
        bind_res (iterate s it1) (\<lambda>ks. ok (k # ks))))
      else ok [])"

definition iteration :: "nat \<Rightarrow> ('k, 'v) state \<Rightarrow> 'k list result" where
  "iteration d s = bind_res (begin_it d s) (\<lambda>it. iterate s it)"

subsection \<open>freeNodes, copy, constructors, assignment, destructor\<close>

text \<open>\<open>freeNodes(Node*& node)\<close>: the argument is the slot the reference binds to.
  No node is deleted; the slots are set to null.\<close>

partial_function (option) freeNodes :: "slot \<Rightarrow> ('k, 'v) state \<Rightarrow> ('k, 'v) state result" where
  "freeNodes node s =
     bind_res (read_slot node s) (\<lambda>p.
     bind_res (deref s p) (\<lambda>n.
     bind_res (if \<not> isLeaf n then
                 bind_res (if hasLeft n then freeNodes (LeftSlot (the p)) s else ok s) (\<lambda>s1.
                 bind_res (deref s1 p) (\<lambda>n1.
                   if hasRight n1 then freeNodes (RightSlot (the p)) s1 else ok s1))
               else ok s) (\<lambda>s2.
       write_slot node None s2)))"

text \<open>\<open>Node::copy\<close> on the node \<open>this\<close>: \<open>new Node(data, nullptr)\<close> is the
  constructor \<open>Node(d, b)\<close>, so the clone's \<open>value\<close> is default-constructed.\<close>

partial_function (option) copy ::
  "'v \<Rightarrow> addr option \<Rightarrow> ('k, 'v) state \<Rightarrow> (addr \<times> ('k, 'v) state) result" where
  "copy dv this s =
     bind_res (deref s this) (\<lambda>n.
       case new_node (Node_kb dv (data n) None) s of
         (nP, s1) \<Rightarrow>
           bind_res (if left n \<noteq> None then
                       bind_res (copy dv (left n) s1) (\<lambda>(l, s2).
                       bind_res (write_slot (LeftSlot nP) (Some l) s2) (\<lambda>s3.
                       bind_res (deref s3 (Some l)) (\<lambda>nl.
                         ok (set_node l (nl\<lparr>bck := Some nP\<rparr>) s3))))
                     else ok s1) (\<lambda>s4.
           bind_res (if right n \<noteq> None then
                       bind_res (copy dv (right n) s4) (\<lambda>(r, s5).
                       bind_res (write_slot (RightSlot nP) (Some r) s5) (\<lambda>s6.
                       bind_res (deref s6 (Some r)) (\<lambda>nr.
                         ok (set_node r (nr\<lparr>bck := Some nP\<rparr>) s6))))
                     else ok s4) (\<lambda>s7.
             ok (nP, s7))))"

text \<open>\<open>DictBST()\<close>, \<open>~DictBST()\<close>, copy assignment and move assignment on the
  dictionary objects \<open>this\<close> and \<open>other\<close>.\<close>

definition construct :: "nat \<Rightarrow> ('k, 'v) state \<Rightarrow> ('k, 'v) state" where
  "construct this s = set_root this None s"

definition destroy :: "nat \<Rightarrow> ('k, 'v) state \<Rightarrow> ('k, 'v) state result" where
  "destroy this s = freeNodes (RootSlot this) s"

definition copy_assign :: "'v \<Rightarrow> nat \<Rightarrow> nat \<Rightarrow> ('k, 'v) state \<Rightarrow> ('k, 'v) state result" where
  "copy_assign dv this other s =
     (if this \<noteq> other then
        bind_res (freeNodes (RootSlot this) s) (\<lambda>s1.
        bind_res (copy dv (root s1 other) s1) (\<lambda>(p, s2).
          ok (set_root this (Some p) s2)))
      else ok s)"

definition move_assign :: "nat \<Rightarrow> nat \<Rightarrow> ('k, 'v) state \<Rightarrow> ('k, 'v) state" where
  "move_assign this temp s =
     set_root temp (root s this) (set_root this (root s temp) s)"

text \<open>
  The copy constructor runs \<open>DictBST()\<close> and then \<open>*this = other\<close>. The move
  constructor runs \<open>DictBST()\<close> and then \<open>*this = temp\<close>, where \<open>temp\<close> is a
  named parameter and so an lvalue: overload resolution picks
  \<open>operator=(const DictBST&)\<close>, the copy assignment.
\<close>

definition copy_construct :: "'v \<Rightarrow> nat \<Rightarrow> nat \<Rightarrow> ('k, 'v) state \<Rightarrow> ('k, 'v) state result" where
  "copy_construct dv this other s = copy_assign dv this other (construct this s)"

definition move_construct :: "'v \<Rightarrow> nat \<Rightarrow> nat \<Rightarrow> ('k, 'v) state \<Rightarrow> ('k, 'v) state result" where
  "move_construct dv this temp s = copy_assign dv this temp (construct this s)"

subsection \<open>Sequences of operations\<close>

datatype ('k, 'v) op = Add 'k 'v | Remove 'k

text \<open>A client that calls \<open>add\<close> and \<open>remove\<close> on the dictionary \<open>d\<close>, one
  call after the other.\<close>

fun run :: "nat \<Rightarrow> ('k::linorder, 'v) op list \<Rightarrow> ('k, 'v) state \<Rightarrow> ('k, 'v) state result" where
  "run d [] s = ok s"
| "run d (Add k v # ops) s = bind_res (add d k v s) (run d ops)"
| "run d (Remove k # ops) s = bind_res (remove d k s) (run d ops)"

section \<open>The tree a dictionary holds\<close>

text \<open>
  A well-formed dictionary is a finite tree laid out in the heap. \<open>Br l a k v r\<close>
  is a node at address \<open>a\<close> with key \<open>k\<close>, value \<open>v\<close> and the subtrees \<open>l\<close>
  and \<open>r\<close>; \<open>Leaf\<close> is the null pointer.
\<close>

datatype ('k, 'v) tree = Leaf | Br "('k, 'v) tree" addr 'k 'v "('k, 'v) tree"

text \<open>Addresses, keys and entries in in-order.\<close>

fun addrs :: "('k, 'v) tree \<Rightarrow> addr list" where
  "addrs Leaf = []"
| "addrs (Br l a k v r) = addrs l @ a # addrs r"

fun keys :: "('k, 'v) tree \<Rightarrow> 'k list" where
  "keys Leaf = []"
| "keys (Br l a k v r) = keys l @ k # keys r"

fun entries :: "('k, 'v) tree \<Rightarrow> ('k \<times> 'v) list" where
  "entries Leaf = []"
| "entries (Br l a k v r) = entries l @ (k, v) # entries r"

text \<open>
  \<open>is_tree s p b t\<close>: in the state \<open>s\<close> the pointer \<open>p\<close> points to the tree
  \<open>t\<close>, and the \<open>back\<close> pointer of its root is \<open>b\<close>: every node of \<open>t\<close> is
  allocated at its address and holds its key, its value, pointers to its two
  subtrees, and a \<open>back\<close> pointer to its parent.
\<close>

fun is_tree :: "('k, 'v) state \<Rightarrow> addr option \<Rightarrow> addr option \<Rightarrow> ('k, 'v) tree \<Rightarrow> bool" where
  "is_tree s p b Leaf = (p = None)"
| "is_tree s p b (Br l a k v r) =
     (p = Some a \<and>
      (case heap s a of
         None \<Rightarrow> False
       | Some n \<Rightarrow> data n = k \<and> val n = v \<and> bck n = b \<and>
                   is_tree s (left n) (Some a) l \<and> is_tree s (right n) (Some a) r))"

text \<open>
  \<open>wf_dict s d t\<close>: the dictionary \<open>d\<close> holds the tree \<open>t\<close>, no node occurs
  twice in it, and all its nodes were handed out by \<open>new\<close>.
\<close>

definition wf_dict :: "('k, 'v) state \<Rightarrow> nat \<Rightarrow> ('k, 'v) tree \<Rightarrow> bool" where
  "wf_dict s d t =
     (is_tree s (root s d) None t \<and> distinct (addrs t) \<and> (\<forall>a \<in> set (addrs t). a < nxt s))"

text \<open>The search order: keys ascend strictly in in-order.\<close>

definition bst :: "('k::linorder, 'v) tree \<Rightarrow> bool" where
  "bst t = sorted_wrt (<) (keys t)"

text \<open>The descent that \<open>has\<close>, \<open>get\<close> and \<open>add\<close> share, on the tree: whether
  it meets the key, the node it meets it at, and the tree \<open>add\<close> leaves when the
  new node is allocated at \<open>a\<close>.\<close>

fun has_tree :: "('k::linorder, 'v) tree \<Rightarrow> 'k \<Rightarrow> bool" where
  "has_tree Leaf key = False"
| "has_tree (Br l a k v r) key =
     (if k = key then True else if key < k then has_tree l key else has_tree r key)"

fun find_tree :: "('k::linorder, 'v) tree \<Rightarrow> 'k \<Rightarrow> (addr \<times> 'v) option" where
  "find_tree Leaf key = None"
| "find_tree (Br l a k v r) key =
     (if k = key then Some (a, v) else if key < k then find_tree l key else find_tree r key)"

fun ins_tree :: "'k::linorder \<Rightarrow> 'v \<Rightarrow> addr \<Rightarrow> ('k, 'v) tree \<Rightarrow> ('k, 'v) tree" where
  "ins_tree key v a Leaf = Br Leaf a key v Leaf"
| "ins_tree key v a (Br l x k w r) =
     (if k = key then Br l x k w r
      else if key < k then Br (ins_tree key v a l) x k w r
      else Br l x k w (ins_tree key v a r))"

text \<open>The node a slot is a member of, if it is one.\<close>

fun slot_node :: "slot \<Rightarrow> addr option" where
  "slot_node (RootSlot d) = None"
| "slot_node (LeftSlot a) = Some a"
| "slot_node (RightSlot a) = Some a"


text \<open>The leftmost node of a tree, where \<open>begin()\<close> and \<open>minKey\<close> stop.\<close>

fun min_ptr :: "('k, 'v) tree \<Rightarrow> addr option" where
  "min_ptr Leaf = None"
| "min_ptr (Br l a k v r) = (if l = Leaf then Some a else min_ptr l)"

text \<open>The last branch of \<open>operator++\<close>: climb while \<open>current\<close> is a right
  child, then step to the parent.\<close>

definition succ_up :: "('k, 'v) state \<Rightarrow> addr \<Rightarrow> addr option result" where
  "succ_up s a = bind_res (climb s a) (\<lambda>c. bind_res (deref s (Some c)) (\<lambda>nc. ok (bck nc)))"


text \<open>The pointer to a tree; the rightmost and the leftmost node of a tree with
  their keys, where \<open>maxKey\<close> and \<open>minKey\<close> stop.\<close>

fun root_ptr :: "('k, 'v) tree \<Rightarrow> addr option" where
  "root_ptr Leaf = None"
| "root_ptr (Br l a k v r) = Some a"

fun max_node :: "('k, 'v) tree \<Rightarrow> (addr \<times> 'k) option" where
  "max_node Leaf = None"
| "max_node (Br l a k v r) = (if r = Leaf then Some (a, k) else max_node r)"

fun min_node :: "('k, 'v) tree \<Rightarrow> (addr \<times> 'k) option" where
  "min_node Leaf = None"
| "min_node (Br l a k v r) = (if l = Leaf then Some (a, k) else min_node l)"

text \<open>The subtree at the node where the descent for \<open>key\<close> stops.\<close>

fun sub_tree :: "'k::linorder \<Rightarrow> ('k, 'v) tree \<Rightarrow> ('k, 'v) tree" where
  "sub_tree key Leaf = Leaf"
| "sub_tree key (Br l a k v r) =
     (if k = key then Br l a k v r else if key < k then sub_tree key l else sub_tree key r)"

text \<open>The search loop of \<open>remove\<close> on the tree: the slot it stops at and what
  the local \<open>remove\<close> holds then.\<close>

fun find_slot :: "'k::linorder \<Rightarrow> slot \<Rightarrow> addr option option \<Rightarrow> ('k, 'v) tree
    \<Rightarrow> slot \<times> addr option option" where
  "find_slot key sl rem Leaf = (sl, rem)"
| "find_slot key sl rem (Br l a k v r) =
     (if k \<noteq> key then
        (if key < k then find_slot key (LeftSlot a) (Some (root_ptr l)) l
         else find_slot key (RightSlot a) (Some (root_ptr r)) r)
      else (sl, rem))"

text \<open>
  What \<open>remove\<close> does to the tree below the root: a leaf is cut off; any other
  node gets the key of its replacement (the maximum of the left subtree if there
  is one, else the minimum of the right subtree), keeps its value, and the
  replacement key is removed from that subtree in the same way.
\<close>

fun del :: "'k::linorder \<Rightarrow> ('k, 'v) tree \<Rightarrow> ('k, 'v) tree" where
  "del key Leaf = Leaf"
| "del key (Br l a k v r) =
     (if k = key then
        (if l = Leaf \<and> r = Leaf then Leaf
         else if l \<noteq> Leaf then Br (del (snd (the (max_node l))) l) a (snd (the (max_node l))) v r
         else Br l a (snd (the (min_node r))) v (del (snd (the (min_node r))) r))
      else if key < k then Br (del key l) a k v r
      else Br l a k v (del key r))"

text \<open>The assignment \<open>remove->data = replacement\<close> on the tree.\<close>

fun upd_key :: "addr \<Rightarrow> 'k \<Rightarrow> ('k, 'v) tree \<Rightarrow> ('k, 'v) tree" where
  "upd_key x m Leaf = Leaf"
| "upd_key x m (Br l a k v r) = Br (upd_key x m l) a (if a = x then m else k) v (upd_key x m r)"


text \<open>The keys a dictionary is meant to hold after a sequence of operations.\<close>

fun keys_after :: "('k, 'v) op list \<Rightarrow> 'k set \<Rightarrow> 'k set" where
  "keys_after [] K = K"
| "keys_after (Add k v # ops) K = keys_after ops (insert k K)"
| "keys_after (Remove k # ops) K = keys_after ops (K - {k})"

text \<open>The state a run ends in (the empty state if it does not end normally).\<close>

definition result_state :: "('k, 'v) state result \<Rightarrow> ('k, 'v) state" where
  "result_state r = (case r of Some (Inr s) \<Rightarrow> s | _ \<Rightarrow> empty_state)"

text \<open>Example states: the dictionary 0 after \<open>add(5, "five")\<close>,
  \<open>add(3, "three")\<close>, \<open>add(8, "eight")\<close>, and the tree it holds; and the same
  state with a dictionary 1 that holds the key 7.\<close>

definition state_538 :: "(int, string) state" where
  "state_538 = result_state (run 0 [Add 5 ''five'', Add 3 ''three'', Add 8 ''eight''] empty_state)"

definition tree_538 :: "(int, string) tree" where
  "tree_538 = Br (Br Leaf 1 3 ''three'' Leaf) 0 5 ''five'' (Br Leaf 2 8 ''eight'' Leaf)"

definition state_538_7 :: "(int, string) state" where
  "state_538_7 = result_state (run 1 [Add 7 ''seven''] state_538)"

definition tree_7 :: "(int, string) tree" where
  "tree_7 = Br Leaf 3 7 ''seven'' Leaf"

text \<open>The scenario of the specification: the keys 5, 3, 8, 1, 4, 7, 9 are added in
  this order, and the iteration yields them in ascending order.\<close>

definition seven :: "(int, string) op list" where
  "seven = [Add 5 ''five'', Add 3 ''three'', Add 8 ''eight'', Add 1 ''one'',
            Add 4 ''four'', Add 7 ''seven'', Add 9 ''nine'']"

section \<open>Running the model\<close>

lemma bind_res_simps:
  "bind_res None g = None"
  "bind_res (Some (Inl e)) g = Some (Inl e)"
  "bind_res (Some (Inr x)) g = g x"
  by (simp_all add: bind_res_def)

lemma bind_res_weak_cong: "m = m2 \<Longrightarrow> bind_res m g = bind_res m2 g"
  by simp

lemmas model_defs = ok_def fail_def empty_state_def new_node_def set_node_def delete_node_def
  set_root_def deref_def read_slot_def write_slot_def Node_kv_def Node_kb_def Node_kvb_def
  isLeaf_def hasLeft_def hasRight_def has_def add_def get_def get_const_def iter_deref_def
  iter_incr_def iter_neq_def begin_it_def begin_key_def end_it_def iteration_def construct_def
  destroy_def copy_assign_def move_assign_def copy_construct_def move_construct_def

lemmas model_simps = bind_res_simps maxKey.simps minKey.simps has_loop.simps add_loop.simps
  remove_loop.simps remove.simps get_found.simps get_insert.simps climb.simps begin_loop.simps
  begin_key_loop.simps iterate.simps freeNodes.simps copy.simps

text \<open>The scenario of the specification, run.\<close>

lemma seven_iteration:
  "bind_res (run 0 seven empty_state) (iteration 0) = ok [1, 3, 4, 5, 7, 8, 9]"
  by (simp add: seven_def model_defs model_simps cong: bind_res_weak_cong)

lemma seven_remove_leaf:
  "bind_res (run 0 (seven @ [Remove 1]) empty_state) (iteration 0) = ok [3, 4, 5, 7, 8, 9]"
  by (simp add: seven_def model_defs model_simps cong: bind_res_weak_cong)

section \<open>The operations on well-formed dictionaries\<close>

subsection \<open>Basic facts\<close>

lemma bind_ok [simp]: "bind_res (ok x) g = g x"
  by (simp add: ok_def bind_res_def)

lemma bind_fail [simp]: "bind_res (fail e) g = fail e"
  by (simp add: fail_def bind_res_def)

lemma ok_inject [simp]: "(ok x = ok y) = (x = y)"
  by (simp add: ok_def)

lemma ok_neq_fail [simp]: "ok x \<noteq> fail e" "fail e \<noteq> ok x"
  by (simp_all add: ok_def fail_def)

lemma fail_inject [simp]: "(fail e = fail e') = (e = e')"
  by (simp add: fail_def)

lemma deref_Some [simp]: "heap s a = Some n \<Longrightarrow> deref s (Some a) = ok n"
  by (simp add: deref_def)

lemma deref_None [simp]: "deref s None = fail NullDeref"
  by (simp add: deref_def)

lemma is_tree_None [simp]: "is_tree s None b t = (t = Leaf)"
  by (cases t) auto

lemma is_tree_frame:
  "\<forall>a \<in> set (addrs t). heap s' a = heap s a \<Longrightarrow> is_tree s' p b t = is_tree s p b t"
  by (induction t arbitrary: p b) (auto split: option.splits)

lemma sorted_wrt_insert_mid:
  "sorted_wrt (<) (xs @ (k::'a::linorder) # ys) =
     (sorted_wrt (<) xs \<and> sorted_wrt (<) ys \<and>
      (\<forall>x \<in> set xs. x < k) \<and> (\<forall>x \<in> set ys. k < x))"
proof
  assume "sorted_wrt (<) (xs @ k # ys)"
  then show "sorted_wrt (<) xs \<and> sorted_wrt (<) ys \<and>
      (\<forall>x \<in> set xs. x < k) \<and> (\<forall>x \<in> set ys. k < x)"
    by (simp add: sorted_wrt_append)
next
  assume b: "sorted_wrt (<) xs \<and> sorted_wrt (<) ys \<and>
      (\<forall>x \<in> set xs. x < k) \<and> (\<forall>x \<in> set ys. k < x)"
  have "x < y" if "x \<in> set xs" "y \<in> set ys" for x y
  proof -
    from b that have "x < k" "k < y" by simp_all
    then show ?thesis by (rule less_trans)
  qed
  with b show "sorted_wrt (<) (xs @ k # ys)"
    by (simp add: sorted_wrt_append)
qed

lemma sorted_wrt_keys_Br:
  "sorted_wrt (<) (keys (Br l a (k::'k::linorder) v r)) =
     (sorted_wrt (<) (keys l) \<and> sorted_wrt (<) (keys r) \<and>
      (\<forall>x \<in> set (keys l). x < k) \<and> (\<forall>x \<in> set (keys r). k < x))"
  by (simp add: sorted_wrt_insert_mid)

lemma keys_entries: "keys t = map fst (entries t)"
  by (induction t) auto

lemma map_of_entries_None: "key \<notin> set (keys t) \<Longrightarrow> map_of (entries t) key = None"
  by (simp add: map_of_eq_None_iff keys_entries)

subsection \<open>has and get\<close>

lemma has_loop_tree: "is_tree s p b t \<Longrightarrow> has_loop s p key = ok (has_tree t key)"
proof (induction t arbitrary: p b)
  case Leaf
  then show ?case by (subst has_loop.simps) simp
next
  case (Br l a k v r)
  then show ?case
    by (subst has_loop.simps) (auto split: option.splits)
qed

lemma get_found_tree:
  "is_tree s p b t \<Longrightarrow>
   get_found s p key = (case find_tree t key of None \<Rightarrow> fail NullDeref | Some (a, v) \<Rightarrow> ok a)"
proof (induction t arbitrary: p b)
  case Leaf
  then show ?case by (subst get_found.simps) simp
next
  case (Br l a k v r)
  then show ?case
    by (subst get_found.simps) (auto split: option.splits)
qed

lemma find_tree_has: "(find_tree t key = None) = (\<not> has_tree t key)"
  by (induction t) auto

lemma find_tree_heap:
  "is_tree s p b t \<Longrightarrow> find_tree t key = Some (a, v) \<Longrightarrow>
   a \<in> set (addrs t) \<and> (\<exists>n. heap s a = Some n \<and> data n = key \<and> val n = v)"
  by (induction t arbitrary: p b) (auto split: option.splits if_splits)

lemma has_tree_bst: "bst t \<Longrightarrow> has_tree t key = (key \<in> set (keys t))"
  unfolding bst_def
proof (induction t)
  case Leaf
  then show ?case by simp
next
  case (Br l a k v r)
  then have sl: "sorted_wrt (<) (keys l)" and sr: "sorted_wrt (<) (keys r)"
    and lk: "\<forall>x \<in> set (keys l). x < k" and kr: "\<forall>x \<in> set (keys r). k < x"
    by (simp_all add: sorted_wrt_keys_Br del: keys.simps)
  from lk have "\<not> key < k \<Longrightarrow> key \<notin> set (keys l)" by auto
  moreover from kr have "key < k \<Longrightarrow> key \<notin> set (keys r)" by auto
  ultimately show ?case
    using Br.IH(1) [OF sl] Br.IH(2) [OF sr] by auto
qed

lemma find_tree_bst: "bst t \<Longrightarrow> map_option snd (find_tree t key) = map_of (entries t) key"
  unfolding bst_def
proof (induction t)
  case Leaf
  then show ?case by simp
next
  case (Br l a k v r)
  then have sl: "sorted_wrt (<) (keys l)" and sr: "sorted_wrt (<) (keys r)"
    and lk: "\<forall>x \<in> set (keys l). x < k" and kr: "\<forall>x \<in> set (keys r). k < x"
    by (simp_all add: sorted_wrt_keys_Br del: keys.simps)
  show ?case
  proof (cases "k = key")
    case True
    with lk have "map_of (entries l) key = None"
      by (intro map_of_entries_None) auto
    with True show ?thesis by (simp add: map_add_def)
  next
    case False
    show ?thesis
    proof (cases "key < k")
      case True
      with kr have "map_of (entries r) key = None"
        by (intro map_of_entries_None) auto
      with True False Br.IH(1) [OF sl] show ?thesis
        by (simp add: map_add_def split: option.splits)
    next
      case gt: False
      with lk False have "map_of (entries l) key = None"
        by (intro map_of_entries_None) auto
      with gt False Br.IH(2) [OF sr] show ?thesis
        by (simp add: map_add_def)
    qed
  qed
qed

subsection \<open>add\<close>

lemma has_tree_ins: "has_tree (ins_tree key v a t) key"
  by (induction t) auto

lemma add_loop_tree:
  assumes "is_tree s (Some p) b t" and "distinct (addrs t)" and "\<forall>a \<in> set (addrs t). a < nxt s"
  shows "\<exists>s'. add_loop key v p s = ok s' \<and>
           is_tree s' (Some p) b (ins_tree key v (nxt s) t) \<and>
           root s' = root s \<and>
           nxt s' = (if has_tree t key then nxt s else Suc (nxt s)) \<and>
           (\<forall>x. x \<notin> set (addrs t) \<longrightarrow> x \<noteq> nxt s \<longrightarrow> heap s' x = heap s x) \<and>
           (has_tree t key \<longrightarrow> s' = s)"
  using assms
proof (induction t arbitrary: p b)
  case Leaf
  then show ?case by simp
next
  case (Br l a k w r)
  from Br.prems(1) obtain n where n: "p = a" "heap s a = Some n" "data n = k" "val n = w" "bck n = b"
    "is_tree s (left n) (Some a) l" "is_tree s (right n) (Some a) r"
    by (auto split: option.splits)
  from Br.prems(2) have dl: "distinct (addrs l)" and dr: "distinct (addrs r)"
    and al: "a \<notin> set (addrs l)" and ar: "a \<notin> set (addrs r)"
    and lr: "set (addrs l) \<inter> set (addrs r) = {}" by auto
  from Br.prems(3) have lt: "a < nxt s" "\<forall>x \<in> set (addrs l). x < nxt s" "\<forall>x \<in> set (addrs r). x < nxt s"
    by auto
  show ?case
  proof (cases "k = key")
    case True
    with n Br.prems show ?thesis
      by (subst add_loop.simps) (auto)
  next
    case False
    note neq = False
    show ?thesis
    proof (cases "key < k")
      case True
      show ?thesis
      proof (cases "left n")
        case None
        with n have l: "l = Leaf" by simp
        let ?a = "nxt s"
        let ?s2 = "set_node a (n\<lparr>left := Some ?a\<rparr>) (snd (new_node (Node_kvb key v (Some a)) s))"
        have h2a: "heap ?s2 a = Some (n\<lparr>left := Some ?a\<rparr>)"
          by (simp add: set_node_def new_node_def)
        have h2n: "heap ?s2 ?a = Some (Node_kvb key v (Some a))"
          using lt(1) by (simp add: set_node_def new_node_def)
        have h2o: "\<And>x. x \<noteq> a \<Longrightarrow> x \<noteq> ?a \<Longrightarrow> heap ?s2 x = heap s x"
          by (simp add: set_node_def new_node_def)
        have run: "add_loop key v p s = ok ?s2"
          using n neq True None h2n
          apply (subst add_loop.simps)
          apply (simp add: new_node_def)
          apply (subst add_loop.simps)
          apply (simp add: set_node_def Node_kvb_def)
          done
        have r2: "is_tree ?s2 (right n) (Some a) r"
        proof -
          have "\<forall>x \<in> set (addrs r). heap ?s2 x = heap s x"
            using ar lt(3) by (auto simp: set_node_def new_node_def)
          from is_tree_frame [OF this] n(7) show ?thesis by simp
        qed
        have "is_tree ?s2 (Some p) b (ins_tree key v ?a (Br l a k w r))"
          using n neq True l h2a h2n r2 by (simp add: Node_kvb_def)
        moreover have "root ?s2 = root s" "nxt ?s2 = Suc (nxt s)"
          by (simp_all add: set_node_def new_node_def)
        moreover have "\<not> has_tree (Br l a k w r) key"
          using neq True l by simp
        ultimately show ?thesis
          using run h2o by auto
      next
        case (Some lp)
        with n have tl: "is_tree s (Some lp) (Some a) l" by simp
        from Br.IH(1) [OF tl dl lt(2)] obtain s' where s':
          "add_loop key v lp s = ok s'"
          "is_tree s' (Some lp) (Some a) (ins_tree key v (nxt s) l)"
          "root s' = root s"
          "nxt s' = (if has_tree l key then nxt s else Suc (nxt s))"
          "\<forall>x. x \<notin> set (addrs l) \<longrightarrow> x \<noteq> nxt s \<longrightarrow> heap s' x = heap s x"
          "has_tree l key \<longrightarrow> s' = s"
          by blast
        have run: "add_loop key v p s = ok s'"
          using n neq True Some s'(1) by (subst add_loop.simps) simp
        have ha: "heap s' a = Some n"
          using s'(5) al lt(1) n(2) by auto
        have r2: "is_tree s' (right n) (Some a) r"
        proof -
          have "\<forall>x \<in> set (addrs r). heap s' x = heap s x"
            using lr lt(3) s'(5) by fastforce
          from is_tree_frame [OF this] n(7) show ?thesis by simp
        qed
        have "is_tree s' (Some p) b (ins_tree key v (nxt s) (Br l a k w r))"
          using n neq True ha r2 s'(2) Some by simp
        then show ?thesis
          using run s' neq True by auto
      qed
    next
      case False
      show ?thesis
      proof (cases "right n")
        case None
        with n have l: "r = Leaf" by simp
        let ?a = "nxt s"
        let ?s2 = "set_node a (n\<lparr>right := Some ?a\<rparr>) (snd (new_node (Node_kvb key v (Some a)) s))"
        have h2a: "heap ?s2 a = Some (n\<lparr>right := Some ?a\<rparr>)"
          by (simp add: set_node_def new_node_def)
        have h2n: "heap ?s2 ?a = Some (Node_kvb key v (Some a))"
          using lt(1) by (simp add: set_node_def new_node_def)
        have h2o: "\<And>x. x \<noteq> a \<Longrightarrow> x \<noteq> ?a \<Longrightarrow> heap ?s2 x = heap s x"
          by (simp add: set_node_def new_node_def)
        have run: "add_loop key v p s = ok ?s2"
          using n neq False None h2n
          apply (subst add_loop.simps)
          apply (simp add: new_node_def)
          apply (subst add_loop.simps)
          apply (simp add: set_node_def Node_kvb_def)
          done
        have r2: "is_tree ?s2 (left n) (Some a) l"
        proof -
          have "\<forall>x \<in> set (addrs l). heap ?s2 x = heap s x"
            using al lt(2) by (auto simp: set_node_def new_node_def)
          from is_tree_frame [OF this] n(6) show ?thesis by simp
        qed
        have "is_tree ?s2 (Some p) b (ins_tree key v ?a (Br l a k w r))"
          using n neq False l h2a h2n r2 by (simp add: Node_kvb_def)
        moreover have "root ?s2 = root s" "nxt ?s2 = Suc (nxt s)"
          by (simp_all add: set_node_def new_node_def)
        moreover have "\<not> has_tree (Br l a k w r) key"
          using neq False l by simp
        ultimately show ?thesis
          using run h2o by auto
      next
        case (Some rp)
        with n have tr: "is_tree s (Some rp) (Some a) r" by simp
        from Br.IH(2) [OF tr dr lt(3)] obtain s' where s':
          "add_loop key v rp s = ok s'"
          "is_tree s' (Some rp) (Some a) (ins_tree key v (nxt s) r)"
          "root s' = root s"
          "nxt s' = (if has_tree r key then nxt s else Suc (nxt s))"
          "\<forall>x. x \<notin> set (addrs r) \<longrightarrow> x \<noteq> nxt s \<longrightarrow> heap s' x = heap s x"
          "has_tree r key \<longrightarrow> s' = s"
          by blast
        have run: "add_loop key v p s = ok s'"
          using n neq False Some s'(1) by (subst add_loop.simps) simp
        have ha: "heap s' a = Some n"
          using s'(5) ar lt(1) n(2) by auto
        have r2: "is_tree s' (left n) (Some a) l"
        proof -
          have "\<forall>x \<in> set (addrs l). heap s' x = heap s x"
            using lr lt(2) s'(5) by fastforce
          from is_tree_frame [OF this] n(6) show ?thesis by simp
        qed
        have "is_tree s' (Some p) b (ins_tree key v (nxt s) (Br l a k w r))"
          using n neq False ha r2 s'(2) Some by simp
        then show ?thesis
          using run s' neq False by auto
      qed
    qed
  qed
qed

subsection \<open>freeNodes\<close>

text \<open>What \<open>node = nullptr\<close> does to the state when \<open>node\<close> is bound to the slot.\<close>

lemma write_slot_None_effect:
  assumes "read_slot sl s = ok p"
  shows "\<exists>s'. write_slot sl None s = ok s' \<and> read_slot sl s' = ok None \<and> nxt s' = nxt s \<and>
           (\<forall>x. Some x \<noteq> slot_node sl \<longrightarrow> heap s' x = heap s x) \<and>
           (\<forall>d. sl \<noteq> RootSlot d \<longrightarrow> root s' d = root s d) \<and>
           (\<forall>x n. slot_node sl = Some x \<longrightarrow> heap s x = Some n \<longrightarrow>
              heap s' x = Some (if sl = LeftSlot x then n\<lparr>left := None\<rparr> else n\<lparr>right := None\<rparr>))"
proof (cases sl)
  case (RootSlot d)
  then show ?thesis
    by (simp add: write_slot_def read_slot_def set_root_def)
next
  case (LeftSlot a)
  with assms obtain n where "heap s a = Some n"
    by (auto simp: read_slot_def deref_def split: option.splits)
  with LeftSlot show ?thesis
    by (simp add: write_slot_def read_slot_def set_node_def)
next
  case (RightSlot a)
  with assms obtain n where "heap s a = Some n"
    by (auto simp: read_slot_def deref_def split: option.splits)
  with RightSlot show ?thesis
    by (simp add: write_slot_def read_slot_def set_node_def)
qed


lemma freeNodes_tree:
  assumes "is_tree s (Some a) b t" and "distinct (addrs t)"
    and "read_slot sl s = ok (Some a)" and "slot_node sl \<notin> Some ` set (addrs t)"
  shows "\<exists>s'. freeNodes sl s = ok s' \<and> read_slot sl s' = ok None \<and> nxt s' = nxt s \<and>
           (\<forall>x. x \<notin> set (addrs t) \<longrightarrow> Some x \<noteq> slot_node sl \<longrightarrow> heap s' x = heap s x) \<and>
           (\<forall>d. sl \<noteq> RootSlot d \<longrightarrow> root s' d = root s d) \<and>
           (\<forall>x n. slot_node sl = Some x \<longrightarrow> heap s x = Some n \<longrightarrow>
              heap s' x = Some (if sl = LeftSlot x then n\<lparr>left := None\<rparr> else n\<lparr>right := None\<rparr>))"
  using assms
proof (induction t arbitrary: a b sl s)
  case Leaf
  then show ?case by simp
next
  case (Br l a' k v r)
  from Br.prems(1) obtain n where n: "a' = a" "heap s a = Some n"
    "is_tree s (left n) (Some a) l" "is_tree s (right n) (Some a) r"
    by (auto split: option.splits)
  from Br.prems(2) n(1) have dl: "distinct (addrs l)" and dr: "distinct (addrs r)"
    and al: "a \<notin> set (addrs l)" and ar: "a \<notin> set (addrs r)"
    and lr: "set (addrs l) \<inter> set (addrs r) = {}" by auto
  from Br.prems(4) n(1) have own: "slot_node sl \<noteq> Some a"
    "slot_node sl \<notin> Some ` set (addrs l)" "slot_node sl \<notin> Some ` set (addrs r)"
    by auto
  \<comment> \<open>the call on the left child, if there is one\<close>
  have "\<exists>s1. (if hasLeft n then freeNodes (LeftSlot a) s else ok s) = ok s1 \<and> nxt s1 = nxt s \<and>
          root s1 = root s \<and>
          (\<forall>x. x \<notin> set (addrs l) \<longrightarrow> x \<noteq> a \<longrightarrow> heap s1 x = heap s x) \<and>
          (\<exists>n1. heap s1 a = Some n1 \<and> right n1 = right n)"
  proof (cases "left n")
    case None
    with n(2) show ?thesis by (simp add: hasLeft_def)
  next
    case (Some la)
    with n(3) have tl: "is_tree s (Some la) (Some a) l" by simp
    have rd: "read_slot (LeftSlot a) s = ok (Some la)"
      using n(2) Some by (simp add: read_slot_def)
    have "slot_node (LeftSlot a) \<notin> Some ` set (addrs l)"
      using al by auto
    from Br.IH(1) [OF tl dl rd this] obtain s1 where s1:
      "freeNodes (LeftSlot a) s = ok s1" "nxt s1 = nxt s"
      "\<forall>x. x \<notin> set (addrs l) \<longrightarrow> Some x \<noteq> slot_node (LeftSlot a) \<longrightarrow> heap s1 x = heap s x"
      "\<forall>d. LeftSlot a \<noteq> RootSlot d \<longrightarrow> root s1 d = root s d"
      "\<forall>x n. slot_node (LeftSlot a) = Some x \<longrightarrow> heap s x = Some n \<longrightarrow>
         heap s1 x = Some (if LeftSlot a = LeftSlot x then n\<lparr>left := None\<rparr> else n\<lparr>right := None\<rparr>)"
      by blast
    from s1(5) n(2) have "heap s1 a = Some (n\<lparr>left := None\<rparr>)" by simp
    moreover from s1(4) have "root s1 = root s" by (simp add: fun_eq_iff)
    ultimately show ?thesis
      using s1(1,2,3) Some by (simp add: hasLeft_def)
  qed
  then obtain s1 n1 where s1: "(if hasLeft n then freeNodes (LeftSlot a) s else ok s) = ok s1"
    "nxt s1 = nxt s" "root s1 = root s"
    "\<forall>x. x \<notin> set (addrs l) \<longrightarrow> x \<noteq> a \<longrightarrow> heap s1 x = heap s x"
    "heap s1 a = Some n1" "right n1 = right n"
    by blast
  have tr1: "is_tree s1 (right n) (Some a) r"
  proof -
    have "\<forall>x \<in> set (addrs r). heap s1 x = heap s x"
      using s1(4) lr ar by fastforce
    from is_tree_frame [OF this] n(4) show ?thesis by simp
  qed
  \<comment> \<open>the call on the right child, if there is one\<close>
  have "\<exists>s2. (if hasRight n1 then freeNodes (RightSlot a) s1 else ok s1) = ok s2 \<and> nxt s2 = nxt s1 \<and>
          root s2 = root s1 \<and>
          (\<forall>x. x \<notin> set (addrs r) \<longrightarrow> x \<noteq> a \<longrightarrow> heap s2 x = heap s1 x)"
  proof (cases "right n")
    case None
    with s1(6) show ?thesis by (simp add: hasRight_def)
  next
    case (Some ra)
    with tr1 have tr: "is_tree s1 (Some ra) (Some a) r" by simp
    have rd: "read_slot (RightSlot a) s1 = ok (Some ra)"
      using s1(5,6) Some by (simp add: read_slot_def)
    have "slot_node (RightSlot a) \<notin> Some ` set (addrs r)"
      using ar by auto
    from Br.IH(2) [OF tr dr rd this] obtain s2 where s2:
      "freeNodes (RightSlot a) s1 = ok s2" "nxt s2 = nxt s1"
      "\<forall>x. x \<notin> set (addrs r) \<longrightarrow> Some x \<noteq> slot_node (RightSlot a) \<longrightarrow> heap s2 x = heap s1 x"
      "\<forall>d. RightSlot a \<noteq> RootSlot d \<longrightarrow> root s2 d = root s1 d"
      by blast
    from s2(4) have "root s2 = root s1" by (simp add: fun_eq_iff)
    then show ?thesis
      using s2(1,2,3) Some s1(6) by (simp add: hasRight_def)
  qed
  then obtain s2 where s2: "(if hasRight n1 then freeNodes (RightSlot a) s1 else ok s1) = ok s2"
    "nxt s2 = nxt s1" "root s2 = root s1"
    "\<forall>x. x \<notin> set (addrs r) \<longrightarrow> x \<noteq> a \<longrightarrow> heap s2 x = heap s1 x"
    by blast
  have out: "\<forall>x. x \<notin> set (addrs (Br l a' k v r)) \<longrightarrow> heap s2 x = heap s x"
    using s1(4) s2(4) n(1) by simp
  \<comment> \<open>the middle of the body\<close>
  have mid: "\<exists>s3. (if \<not> isLeaf n then
             bind_res (if hasLeft n then freeNodes (LeftSlot a) s else ok s) (\<lambda>s1.
             bind_res (deref s1 (Some a)) (\<lambda>n1.
               if hasRight n1 then freeNodes (RightSlot a) s1 else ok s1))
           else ok s) = ok s3 \<and> nxt s3 = nxt s \<and> root s3 = root s \<and>
           (\<forall>x. x \<notin> set (addrs (Br l a' k v r)) \<longrightarrow> heap s3 x = heap s x)"
  proof (cases "isLeaf n")
    case True
    then show ?thesis by simp
  next
    case False
    then show ?thesis
      using s1(1,2,3,5) s2(1,2,3) out by simp
  qed
  then obtain s3 where s3: "(if \<not> isLeaf n then
             bind_res (if hasLeft n then freeNodes (LeftSlot a) s else ok s) (\<lambda>s1.
             bind_res (deref s1 (Some a)) (\<lambda>n1.
               if hasRight n1 then freeNodes (RightSlot a) s1 else ok s1))
           else ok s) = ok s3" "nxt s3 = nxt s" "root s3 = root s"
           "\<forall>x. x \<notin> set (addrs (Br l a' k v r)) \<longrightarrow> heap s3 x = heap s x"
    by blast
  have rd3: "read_slot sl s3 = ok (Some a)"
  proof (cases sl)
    case (RootSlot d)
    with Br.prems(3) s3(3) show ?thesis by (simp add: read_slot_def)
  next
    case (LeftSlot x)
    with Br.prems(4) s3(4) have "heap s3 x = heap s x" by auto
    with Br.prems(3) LeftSlot show ?thesis by (simp add: read_slot_def deref_def)
  next
    case (RightSlot x)
    with Br.prems(4) s3(4) have "heap s3 x = heap s x" by auto
    with Br.prems(3) RightSlot show ?thesis by (simp add: read_slot_def deref_def)
  qed
  from write_slot_None_effect [OF rd3] obtain s' where s':
    "write_slot sl None s3 = ok s'" "read_slot sl s' = ok None" "nxt s' = nxt s3"
    "\<forall>x. Some x \<noteq> slot_node sl \<longrightarrow> heap s' x = heap s3 x"
    "\<forall>d. sl \<noteq> RootSlot d \<longrightarrow> root s' d = root s3 d"
    "\<forall>x n. slot_node sl = Some x \<longrightarrow> heap s3 x = Some n \<longrightarrow>
       heap s' x = Some (if sl = LeftSlot x then n\<lparr>left := None\<rparr> else n\<lparr>right := None\<rparr>)"
    by blast
  have run: "freeNodes sl s = ok s'"
    by (subst freeNodes.simps)
       (simp only: Br.prems(3) bind_ok deref_Some [OF n(2)] option.sel s3(1) s'(1))
  have own3: "\<forall>x. slot_node sl = Some x \<longrightarrow> heap s3 x = heap s x"
    using Br.prems(4) s3(4) by auto
  show ?case
    using run s'(2,3,4,5,6) s3(2,3,4) own3 by simp
qed

lemma freeNodes_null: "read_slot sl s = ok None \<Longrightarrow> freeNodes sl s = fail NullDeref"
  by (subst freeNodes.simps) simp

lemma copy_null: "copy dv None s = fail NullDeref"
  by (subst copy.simps) simp


subsection \<open>The iteration visits the keys in in-order\<close>

lemma bind_res_assoc: "bind_res (bind_res m f) g = bind_res m (\<lambda>x. bind_res (f x) g)"
  by (simp add: bind_res_def split: option.splits sum.splits)

lemma min_ptr_Some: "t \<noteq> Leaf \<Longrightarrow> \<exists>m. min_ptr t = Some m"
  by (induction t) auto

lemma minKey_tree: "is_tree s (Some a) b t \<Longrightarrow> minKey s a = ok (the (min_ptr t))"
proof (induction t arbitrary: a b)
  case Leaf
  then show ?case by simp
next
  case (Br l x k v r)
  then obtain n where n: "x = a" "heap s a = Some n" "is_tree s (left n) (Some a) l"
    by (auto split: option.splits)
  show ?case
  proof (cases "left n")
    case None
    with n show ?thesis by (subst minKey.simps) simp
  next
    case (Some la)
    with n have "l \<noteq> Leaf" by auto
    with n Some Br.IH(1) [of la "Some a"] show ?thesis
      by (subst minKey.simps) simp
  qed
qed

lemma begin_loop_tree: "is_tree s (Some a) b t \<Longrightarrow> begin_loop s (Some a) = ok (min_ptr t)"
proof (induction t arbitrary: a b)
  case Leaf
  then show ?case by simp
next
  case (Br l x k v r)
  then obtain n where n: "x = a" "heap s a = Some n" "is_tree s (left n) (Some a) l"
    by (auto split: option.splits)
  show ?case
  proof (cases "left n")
    case None
    with n show ?thesis by (subst begin_loop.simps) (simp add: hasLeft_def)
  next
    case (Some la)
    with n have "l \<noteq> Leaf" by auto
    with n Some Br.IH(1) [of la "Some a"] show ?thesis
      by (subst begin_loop.simps) (simp add: hasLeft_def)
  qed
qed

lemma succ_up_root: "heap s a = Some n \<Longrightarrow> bck n = None \<Longrightarrow> succ_up s a = ok None"
  unfolding succ_up_def by (subst climb.simps) simp

lemma succ_up_left:
  "heap s a = Some n \<Longrightarrow> bck n = Some p \<Longrightarrow> heap s p = Some np \<Longrightarrow> right np \<noteq> Some a \<Longrightarrow>
   succ_up s a = ok (Some p)"
  unfolding succ_up_def by (subst climb.simps) auto

lemma succ_up_right:
  "heap s a = Some n \<Longrightarrow> bck n = Some p \<Longrightarrow> heap s p = Some np \<Longrightarrow> right np = Some a \<Longrightarrow>
   succ_up s a = succ_up s p"
  unfolding succ_up_def by (subst climb.simps) simp

lemma iter_incr_no_right:
  "heap s a = Some n \<Longrightarrow> right n = None \<Longrightarrow> iter_incr s (Some a) = succ_up s a"
  unfolding iter_incr_def
  by (cases "bck n") (simp_all add: hasRight_def succ_up_root, simp add: succ_up_def)

lemma iterate_end: "iterate s None = ok []"
  by (subst iterate.simps) (simp add: iter_neq_def end_it_def)

lemma iterate_step:
  "heap s a = Some n \<Longrightarrow> iter_incr s (Some a) = ok q \<Longrightarrow>
   iterate s (Some a) = bind_res (iterate s q) (\<lambda>ks. ok (data n # ks))"
  by (subst iterate.simps) (simp add: iter_neq_def end_it_def iter_deref_def)

lemma is_tree_root_addr: "is_tree s (Some a) b t \<Longrightarrow> a \<in> set (addrs t)"
  by (cases t) auto

lemma iterate_subtree:
  assumes "is_tree s (Some a) b t" and "distinct (addrs t)" and "succ_up s a = ok q"
  shows "iterate s (min_ptr t) = bind_res (iterate s q) (\<lambda>rest. ok (keys t @ rest))"
  using assms
proof (induction t arbitrary: a b q)
  case Leaf
  then show ?case by simp
next
  case (Br l x k v r)
  from Br.prems(1) obtain n where n: "x = a" "heap s a = Some n" "data n = k"
    "is_tree s (left n) (Some a) l" "is_tree s (right n) (Some a) r"
    by (auto split: option.splits)
  from Br.prems(2) have dl: "distinct (addrs l)" and dr: "distinct (addrs r)"
    and lr: "set (addrs l) \<inter> set (addrs r) = {}" by auto
  \<comment> \<open>from the node itself onwards\<close>
  have here: "iterate s (Some a) = bind_res (iterate s q) (\<lambda>rest. ok (k # keys r @ rest))"
  proof (cases "right n")
    case None
    with n have "r = Leaf" by simp
    moreover from None n(2) Br.prems(3) have "iter_incr s (Some a) = ok q"
      by (simp add: iter_incr_no_right)
    ultimately show ?thesis
      using iterate_step [OF n(2)] n(3) by simp
  next
    case (Some ra)
    with n(5) have tr: "is_tree s (Some ra) (Some a) r" by simp
    then obtain nr where nr: "heap s ra = Some nr" "bck nr = Some a"
      by (cases r) (auto split: option.splits)
    from tr have "r \<noteq> Leaf" by auto
    then obtain m where m: "min_ptr r = Some m" using min_ptr_Some by blast
    have "succ_up s ra = ok q"
      using succ_up_right [OF nr n(2) Some] Br.prems(3) by simp
    from Br.IH(2) [OF tr dr this]
    have r: "iterate s (min_ptr r) = bind_res (iterate s q) (\<lambda>rest. ok (keys r @ rest))" .
    have "iter_incr s (Some a) = ok (min_ptr r)"
      using n(2) Some nr(1) minKey_tree [OF tr] m by (simp add: iter_incr_def hasRight_def)
    from iterate_step [OF n(2) this] r n(3) show ?thesis
      by (simp add: bind_res_assoc)
  qed
  show ?case
  proof (cases "left n")
    case None
    with n have "l = Leaf" by simp
    with here n(1) show ?thesis by simp
  next
    case (Some la)
    with n(4) have tl: "is_tree s (Some la) (Some a) l" by simp
    then obtain nl where nl: "heap s la = Some nl" "bck nl = Some a"
      by (cases l) (auto split: option.splits)
    from tl have ne: "l \<noteq> Leaf" by auto
    have "right n \<noteq> Some la"
    proof
      assume "right n = Some la"
      with n(5) have "la \<in> set (addrs r)" by (simp add: is_tree_root_addr)
      moreover from tl have "la \<in> set (addrs l)" by (rule is_tree_root_addr)
      ultimately show False using lr by auto
    qed
    from succ_up_left [OF nl n(2) this]
    have "succ_up s la = ok (Some a)" .
    from Br.IH(1) [OF tl dl this] here ne n(1) show ?thesis
      by (simp add: bind_res_assoc)
  qed
qed

lemma iteration_tree:
  assumes "wf_dict s d t" and "t \<noteq> Leaf"
  shows "iteration d s = ok (keys t)"
proof -
  from assms obtain a where a: "root s d = Some a" "is_tree s (Some a) None t"
    "distinct (addrs t)"
    by (cases "root s d") (auto simp: wf_dict_def)
  then obtain n where n: "heap s a = Some n" "bck n = None"
    using assms(2) by (cases t) (auto split: option.splits)
  from iterate_subtree [OF a(2,3) succ_up_root [OF n]]
  have "iterate s (min_ptr t) = ok (keys t)"
    by (simp add: iterate_end)
  then show ?thesis
    using begin_loop_tree [OF a(2)] a(1) by (simp add: iteration_def begin_it_def)
qed

subsection \<open>add keeps a dictionary well-formed and in search order\<close>

lemma has_tree_keys: "has_tree t key \<Longrightarrow> key \<in> set (keys t)"
  by (induction t) (auto split: if_splits)

lemma ins_tree_has: "has_tree t key \<Longrightarrow> ins_tree key v a t = t"
  by (induction t) (auto split: if_splits)

lemma ins_tree_addrs:
  "\<not> has_tree t key \<Longrightarrow> set (addrs (ins_tree key v a t)) = insert a (set (addrs t))"
  by (induction t) (auto split: if_splits)

lemma ins_tree_distinct:
  "distinct (addrs t) \<Longrightarrow> a \<notin> set (addrs t) \<Longrightarrow> distinct (addrs (ins_tree key v a t))"
proof (induction t)
  case Leaf
  then show ?case by simp
next
  case (Br l x k w r)
  show ?case
  proof (cases "has_tree (Br l x k w r) key")
    case True
    with Br.prems show ?thesis by (simp only: ins_tree_has)
  next
    case False
    then have "k \<noteq> key" by auto
    show ?thesis
    proof (cases "key < k")
      case True
      with False \<open>k \<noteq> key\<close> have "\<not> has_tree l key" by simp
      from ins_tree_addrs [OF this] Br True \<open>k \<noteq> key\<close> show ?thesis by auto
    next
      case ge: False
      with False \<open>k \<noteq> key\<close> have "\<not> has_tree r key" by simp
      from ins_tree_addrs [OF this] Br ge \<open>k \<noteq> key\<close> show ?thesis by auto
    qed
  qed
qed

lemma ins_tree_keys: "set (keys (ins_tree key v a t)) = insert key (set (keys t))"
  by (induction t) auto

lemma ins_tree_bst: "bst t \<Longrightarrow> bst (ins_tree key v a t)"
  unfolding bst_def
proof (induction t)
  case Leaf
  then show ?case by simp
next
  case (Br l x k w r)
  then have sl: "sorted_wrt (<) (keys l)" and sr: "sorted_wrt (<) (keys r)"
    and lk: "\<forall>y \<in> set (keys l). y < k" and kr: "\<forall>y \<in> set (keys r). k < y"
    by (simp_all add: sorted_wrt_keys_Br del: keys.simps)
  show ?case
  proof (cases "k = key")
    case True
    with Br.prems show ?thesis by simp
  next
    case False
    show ?thesis
    proof (cases "key < k")
      case True
      with False Br.IH(1) [OF sl] sr lk kr show ?thesis
        by (simp add: sorted_wrt_keys_Br ins_tree_keys del: keys.simps)
    next
      case ge: False
      with False have "k < key" by simp
      with ge False Br.IH(2) [OF sr] sl lk kr show ?thesis
        by (simp add: sorted_wrt_keys_Br ins_tree_keys del: keys.simps)
    qed
  qed
qed

lemma add_wf:
  assumes "wf_dict s d t"
  shows "\<exists>s'. add d key v s = ok s' \<and> wf_dict s' d (ins_tree key v (nxt s) t)"
proof (cases "root s d")
  case None
  with assms have "t = Leaf" by (simp add: wf_dict_def)
  with None show ?thesis
    by (simp add: add_def new_node_def wf_dict_def set_root_def Node_kv_def)
next
  case (Some p)
  from assms Some have t: "is_tree s (Some p) None t" "distinct (addrs t)"
    "\<forall>a \<in> set (addrs t). a < nxt s"
    by (simp_all add: wf_dict_def)
  from add_loop_tree [OF t, of key v] obtain s' where s':
    "add_loop key v p s = ok s'"
    "is_tree s' (Some p) None (ins_tree key v (nxt s) t)"
    "root s' = root s"
    "nxt s' = (if has_tree t key then nxt s else Suc (nxt s))"
    by blast
  have "nxt s \<notin> set (addrs t)" using t(3) by auto
  from ins_tree_distinct [OF t(2) this]
  have d: "distinct (addrs (ins_tree key v (nxt s) t))" .
  have "\<forall>a \<in> set (addrs (ins_tree key v (nxt s) t)). a < nxt s'"
  proof (cases "has_tree t key")
    case True
    with t(3) s'(4) show ?thesis by (simp add: ins_tree_has)
  next
    case False
    with t(3) s'(4) show ?thesis by (auto simp: ins_tree_addrs)
  qed
  with s' d Some show ?thesis
    by (simp add: add_def wf_dict_def)
qed

subsection \<open>remove below the root\<close>

lemma max_node_Some: "t \<noteq> Leaf \<Longrightarrow> \<exists>am m. max_node t = Some (am, m)"
  by (induction t) auto

lemma min_node_Some: "t \<noteq> Leaf \<Longrightarrow> \<exists>am m. min_node t = Some (am, m)"
  by (induction t) auto

lemma max_node_in: "max_node t = Some (am, m) \<Longrightarrow> am \<in> set (addrs t) \<and> m \<in> set (keys t)"
  by (induction t) (auto split: if_splits)

lemma min_node_in: "min_node t = Some (am, m) \<Longrightarrow> am \<in> set (addrs t) \<and> m \<in> set (keys t)"
  by (induction t) (auto split: if_splits)

lemma max_node_last: "max_node t = Some (am, m) \<Longrightarrow> keys t \<noteq> [] \<and> m = last (keys t)"
  by (induction t) (auto split: if_splits)

lemma min_node_hd: "min_node t = Some (am, m) \<Longrightarrow> keys t \<noteq> [] \<and> m = hd (keys t)"
proof (induction t)
  case Leaf
  then show ?case by simp
next
  case (Br l a k v r)
  then show ?case
    by (cases "l = Leaf") (auto simp: hd_append)
qed

lemma sub_tree_addrs: "set (addrs (sub_tree key t)) \<subseteq> set (addrs t)"
  by (induction t) auto

lemma sub_tree_keys: "set (keys (sub_tree key t)) \<subseteq> set (keys t)"
  by (induction t) auto

lemma sub_tree_size: "size (sub_tree key t) \<le> size t"
  by (induction t) auto

lemma sub_tree_root: "sub_tree key t = Br l a k v r \<Longrightarrow> k = key"
  by (induction t) (auto split: if_splits)

lemma sub_tree_has: "(sub_tree key t = Leaf) = (\<not> has_tree t key)"
  by (induction t) auto

lemma del_addrs: "set (addrs (del key t)) \<subseteq> set (addrs t)"
  by (induction key t rule: del.induct) (auto simp: Let_def)

lemma del_distinct: "distinct (addrs t) \<Longrightarrow> distinct (addrs (del key t))"
proof (induction key t rule: del.induct)
  case (1 key)
  then show ?case by simp
next
  case (2 key l a k v r)
  have sl: "set (addrs (del x l)) \<subseteq> set (addrs l)" and sr: "set (addrs (del x r)) \<subseteq> set (addrs r)" for x
    by (rule del_addrs)+
  from 2 show ?case
    using sl sr by (auto simp: Let_def) blast+
qed

lemma del_absent: "\<not> has_tree t key \<Longrightarrow> del key t = t"
  by (induction t) (auto split: if_splits)

lemma upd_key_addrs [simp]: "addrs (upd_key x m t) = addrs t"
  by (induction t) auto

lemma upd_key_id: "x \<notin> set (addrs t) \<Longrightarrow> upd_key x m t = t"
  by (induction t) auto

lemma bst_Br:
  "bst (Br l a (k::'k::linorder) v r) =
     (bst l \<and> bst r \<and> (\<forall>x \<in> set (keys l). x < k) \<and> (\<forall>x \<in> set (keys r). k < x))"
  unfolding bst_def by (rule sorted_wrt_keys_Br)

lemma bst_Leaf [simp]: "bst Leaf"
  by (simp add: bst_def)

lemma sub_tree_reach:
  "bst t \<Longrightarrow> sub_tree key t = u \<Longrightarrow> m \<in> set (keys u) \<Longrightarrow> sub_tree m t = sub_tree m u"
proof (induction t)
  case Leaf
  then show ?case by simp
next
  case (Br l a k v r)
  from Br.prems(1) have b: "bst l" "bst r" "\<forall>x \<in> set (keys l). x < k" "\<forall>x \<in> set (keys r). k < x"
    by (simp_all add: bst_Br)
  show ?case
  proof (cases "k = key")
    case True
    with Br.prems(2) show ?thesis by simp
  next
    case False
    show ?thesis
    proof (cases "key < k")
      case True
      with False Br.prems(2) have u: "sub_tree key l = u" by simp
      with Br.prems(3) sub_tree_keys [of key l] have "m \<in> set (keys l)" by auto
      with b(3) have "m < k" by simp
      then have "k \<noteq> m" by auto
      with Br.IH(1) [OF b(1) u Br.prems(3)] \<open>m < k\<close> show ?thesis by simp
    next
      case ge: False
      with False Br.prems(2) have u: "sub_tree key r = u" by simp
      with Br.prems(3) sub_tree_keys [of key r] have "m \<in> set (keys r)" by auto
      with b(4) have "k < m" by simp
      with Br.IH(2) [OF b(2) u Br.prems(3)] show ?thesis by auto
    qed
  qed
qed

lemma del_via_max:
  assumes "bst t" and "distinct (addrs t)" and "sub_tree key t = Br l a key v r"
    and "max_node l = Some (am, m)"
  shows "upd_key a m (del m t) = del key t"
  using assms
proof (induction t)
  case Leaf
  then show ?case by simp
next
  case (Br l0 a0 k0 v0 r0)
  from Br.prems(1) have b: "bst l0" "bst r0" "\<forall>x \<in> set (keys l0). x < k0"
    "\<forall>x \<in> set (keys r0). k0 < x"
    by (simp_all add: bst_Br)
  from Br.prems(2) have d: "distinct (addrs l0)" "distinct (addrs r0)"
    "a0 \<notin> set (addrs l0)" "a0 \<notin> set (addrs r0)" "set (addrs l0) \<inter> set (addrs r0) = {}"
    by auto
  from max_node_in [OF Br.prems(4)] have m: "am \<in> set (addrs l)" "m \<in> set (keys l)" by simp_all
  from Br.prems(4) have ne: "l \<noteq> Leaf" by auto
  show ?case
  proof (cases "k0 = key")
    case True
    with Br.prems(3) have eq: "l0 = l" "a0 = a" "r0 = r" "v0 = v" by simp_all
    from m(2) b(3) eq have "m < k0" by simp
    moreover have "a \<notin> set (addrs (del m l))"
      using del_addrs [of m l] d(3) eq by auto
    ultimately show ?thesis
      using True eq ne Br.prems(4) d(4) by (simp add: upd_key_id)
  next
    case False
    show ?thesis
    proof (cases "key < k0")
      case True
      with False Br.prems(3) have u: "sub_tree key l0 = Br l a key v r" by simp
      from sub_tree_keys [of key l0] u m(2) have "m \<in> set (keys l0)" by auto
      with b(3) have "m < k0" by simp
      then have "k0 \<noteq> m" by auto
      from sub_tree_addrs [of key l0] u have "a \<in> set (addrs l0)" by auto
      with d have "a \<noteq> a0" "a \<notin> set (addrs r0)" by auto
      with Br.IH(1) [OF b(1) d(1) u Br.prems(4)] \<open>m < k0\<close> \<open>k0 \<noteq> m\<close> True False
      show ?thesis
        by (simp add: upd_key_id)
    next
      case ge: False
      with False Br.prems(3) have u: "sub_tree key r0 = Br l a key v r" by simp
      from sub_tree_keys [of key r0] u m(2) have "m \<in> set (keys r0)" by auto
      with b(4) have "k0 < m" by simp
      from sub_tree_addrs [of key r0] u have "a \<in> set (addrs r0)" by auto
      with d have "a \<noteq> a0" "a \<notin> set (addrs l0)" by auto
      with Br.IH(2) [OF b(2) d(2) u Br.prems(4)] \<open>k0 < m\<close> ge False show ?thesis
        by (auto simp: upd_key_id)
    qed
  qed
qed

lemma del_via_min:
  assumes "bst t" and "distinct (addrs t)" and "sub_tree key t = Br Leaf a key v r"
    and "min_node r = Some (am, m)"
  shows "upd_key a m (del m t) = del key t"
  using assms
proof (induction t)
  case Leaf
  then show ?case by simp
next
  case (Br l0 a0 k0 v0 r0)
  from Br.prems(1) have b: "bst l0" "bst r0" "\<forall>x \<in> set (keys l0). x < k0"
    "\<forall>x \<in> set (keys r0). k0 < x"
    by (simp_all add: bst_Br)
  from Br.prems(2) have d: "distinct (addrs l0)" "distinct (addrs r0)"
    "a0 \<notin> set (addrs l0)" "a0 \<notin> set (addrs r0)" "set (addrs l0) \<inter> set (addrs r0) = {}"
    by auto
  from min_node_in [OF Br.prems(4)] have m: "am \<in> set (addrs r)" "m \<in> set (keys r)" by simp_all
  from Br.prems(4) have ne: "r \<noteq> Leaf" by auto
  show ?case
  proof (cases "k0 = key")
    case True
    with Br.prems(3) have eq: "l0 = Leaf" "a0 = a" "r0 = r" "v0 = v" by simp_all
    from m(2) b(4) eq have "k0 < m" by simp
    moreover have "a \<notin> set (addrs (del m r))"
      using del_addrs [of m r] d(4) eq by auto
    ultimately show ?thesis
      using True eq ne Br.prems(4) by (auto simp: upd_key_id)
  next
    case False
    show ?thesis
    proof (cases "key < k0")
      case True
      with False Br.prems(3) have u: "sub_tree key l0 = Br Leaf a key v r" by simp
      from sub_tree_keys [of key l0] u m(2) have "m \<in> set (keys l0)" by auto
      with b(3) have "m < k0" by simp
      then have "k0 \<noteq> m" by auto
      from sub_tree_addrs [of key l0] u have "a \<in> set (addrs l0)" by auto
      with d have "a \<noteq> a0" "a \<notin> set (addrs r0)" by auto
      with Br.IH(1) [OF b(1) d(1) u Br.prems(4)] \<open>m < k0\<close> \<open>k0 \<noteq> m\<close> True False
      show ?thesis
        by (simp add: upd_key_id)
    next
      case ge: False
      with False Br.prems(3) have u: "sub_tree key r0 = Br Leaf a key v r" by simp
      from sub_tree_keys [of key r0] u m(2) have "m \<in> set (keys r0)" by auto
      with b(4) have "k0 < m" by simp
      from sub_tree_addrs [of key r0] u have "a \<in> set (addrs r0)" by auto
      with d have "a \<noteq> a0" "a \<notin> set (addrs l0)" by auto
      with Br.IH(2) [OF b(2) d(2) u Br.prems(4)] \<open>k0 < m\<close> ge False show ?thesis
        by (auto simp: upd_key_id)
    qed
  qed
qed

lemma is_tree_root_ptr: "is_tree s p b t \<Longrightarrow> p = root_ptr t"
  by (cases t) auto

lemma remove_loop_tree:
  "is_tree s p b u \<Longrightarrow> read_slot sl s = ok p \<Longrightarrow>
   remove_loop key sl rem s = ok (find_slot key sl rem u)"
proof (induction u arbitrary: p b sl rem)
  case Leaf
  then show ?case by (subst remove_loop.simps) simp
next
  case (Br l a k v r)
  from Br.prems(1) obtain n where n: "p = Some a" "heap s a = Some n" "data n = k"
    "is_tree s (left n) (Some a) l" "is_tree s (right n) (Some a) r"
    by (auto split: option.splits)
  have rl: "read_slot (LeftSlot a) s = ok (left n)" and rr: "read_slot (RightSlot a) s = ok (right n)"
    using n(2) by (simp_all add: read_slot_def)
  from is_tree_root_ptr [OF n(4)] is_tree_root_ptr [OF n(5)]
  have ptr: "left n = root_ptr l" "right n = root_ptr r" .
  show ?case
  proof (cases "k = key")
    case True
    with n Br.prems(2) show ?thesis by (subst remove_loop.simps) simp
  next
    case False
    show ?thesis
    proof (cases "key < k")
      case True
      from Br.IH(1) [OF n(4) rl, of "Some (left n)"] True False n Br.prems(2) rl ptr show ?thesis
        by (subst remove_loop.simps) simp
    next
      case ge: False
      from Br.IH(2) [OF n(5) rr, of "Some (right n)"] ge False n Br.prems(2) rr ptr show ?thesis
        by (subst remove_loop.simps) simp
    qed
  qed
qed

lemma find_slot_rem:
  "snd (find_slot key sl rem t) =
     (case t of Leaf \<Rightarrow> rem
      | Br l a k v r \<Rightarrow> if k = key then rem else Some (root_ptr (sub_tree key t)))"
proof (induction t arbitrary: sl rem)
  case Leaf
  then show ?case by simp
next
  case (Br l a k v r)
  show ?case
  proof (cases "k = key")
    case True
    then show ?thesis by simp
  next
    case False
    show ?thesis
    proof (cases "key < k")
      case True
      with False Br.IH(1) [of "LeftSlot a" "Some (root_ptr l)"] show ?thesis
        by (cases l) auto
    next
      case ge: False
      with False Br.IH(2) [of "RightSlot a" "Some (root_ptr r)"] show ?thesis
        by (cases r) auto
    qed
  qed
qed

lemma is_tree_sub:
  "is_tree s p b t \<Longrightarrow> sub_tree key t = Br l a k v r \<Longrightarrow>
   \<exists>b'. is_tree s (Some a) b' (Br l a k v r)"
proof (induction t arbitrary: p b)
  case Leaf
  then show ?case by simp
next
  case (Br l0 a0 k0 v0 r0)
  from Br.prems(1) obtain n where n: "heap s a0 = Some n"
    "is_tree s (left n) (Some a0) l0" "is_tree s (right n) (Some a0) r0"
    by (auto split: option.splits)
  show ?case
  proof (cases "k0 = key")
    case True
    with Br.prems show ?thesis by auto
  next
    case False
    with Br.prems(2) Br.IH(1) [OF n(2)] Br.IH(2) [OF n(3)] show ?thesis
      by (cases "key < k0") auto
  qed
qed

lemma is_tree_upd_key:
  "is_tree s p b t \<Longrightarrow> heap s x = Some n \<Longrightarrow>
   is_tree (set_node x (n\<lparr>data := m\<rparr>) s) p b (upd_key x m t)"
proof (induction t arbitrary: p b)
  case Leaf
  then show ?case by simp
next
  case (Br l a k v r)
  from Br.prems(1) obtain na where na: "p = Some a" "heap s a = Some na" "data na = k" "val na = v"
    "bck na = b" "is_tree s (left na) (Some a) l" "is_tree s (right na) (Some a) r"
    by (auto split: option.splits)
  from Br.IH(1) [OF na(6) Br.prems(2)] Br.IH(2) [OF na(7) Br.prems(2)] na Br.prems(2)
  show ?case
    by (auto simp: set_node_def)
qed

lemma maxKey_node:
  "is_tree s (Some a) b t \<Longrightarrow> max_node t = Some (am, m) \<Longrightarrow>
   maxKey s a = ok am \<and> (\<exists>nm. heap s am = Some nm \<and> data nm = m)"
proof (induction t arbitrary: a b)
  case Leaf
  then show ?case by simp
next
  case (Br l x k v r)
  from Br.prems(1) obtain n where n: "x = a" "heap s a = Some n" "data n = k"
    "is_tree s (right n) (Some a) r"
    by (auto split: option.splits)
  show ?case
  proof (cases "right n")
    case None
    with n Br.prems(2) show ?thesis by (subst maxKey.simps) auto
  next
    case (Some ra)
    with n have "r \<noteq> Leaf" by auto
    with n Some Br.IH(2) [of ra "Some a"] Br.prems(2) show ?thesis
      by (subst maxKey.simps) simp
  qed
qed

lemma minKey_node:
  "is_tree s (Some a) b t \<Longrightarrow> min_node t = Some (am, m) \<Longrightarrow>
   minKey s a = ok am \<and> (\<exists>nm. heap s am = Some nm \<and> data nm = m)"
proof (induction t arbitrary: a b)
  case Leaf
  then show ?case by simp
next
  case (Br l x k v r)
  from Br.prems(1) obtain n where n: "x = a" "heap s a = Some n" "data n = k"
    "is_tree s (left n) (Some a) l"
    by (auto split: option.splits)
  show ?case
  proof (cases "left n")
    case None
    with n Br.prems(2) show ?thesis by (subst minKey.simps) auto
  next
    case (Some la)
    with n have "l \<noteq> Leaf" by auto
    with n Some Br.IH(1) [of la "Some a"] Br.prems(2) show ?thesis
      by (subst minKey.simps) simp
  qed
qed

lemma read_slot_frame:
  assumes "\<forall>z. slot_node sl = Some z \<longrightarrow> heap s' z = heap s z"
    and "\<forall>d. sl = RootSlot d \<longrightarrow> root s' d = root s d"
  shows "read_slot sl s' = read_slot sl s"
  using assms by (cases sl) (simp_all add: read_slot_def deref_def)

lemma remove_leaf_tree:
  assumes "is_tree s p b t" and "distinct (addrs t)" and "read_slot sl s = ok p"
    and "slot_node sl \<notin> Some ` set (addrs t)" and "sub_tree key t = Br Leaf a key v Leaf"
  shows "\<exists>s' p'. write_slot (fst (find_slot key sl rem t)) None (delete_node a s) = ok s' \<and>
           read_slot sl s' = ok p' \<and> is_tree s' p' b (del key t) \<and> nxt s' = nxt s \<and>
           (\<forall>y. y \<notin> set (addrs t) \<longrightarrow> Some y \<noteq> slot_node sl \<longrightarrow> heap s' y = heap s y) \<and>
           (\<forall>d. sl \<noteq> RootSlot d \<longrightarrow> root s' d = root s d) \<and>
           (\<forall>x n. slot_node sl = Some x \<longrightarrow> heap s x = Some n \<longrightarrow>
              heap s' x = Some (if sl = LeftSlot x then n\<lparr>left := p'\<rparr> else n\<lparr>right := p'\<rparr>)) \<and>
           (\<forall>y. y \<noteq> a \<longrightarrow> heap s y \<noteq> None \<longrightarrow> heap s' y \<noteq> None)"
  using assms
proof (induction t arbitrary: p b sl rem)
  case Leaf
  then show ?case by simp
next
  case (Br l x k w r)
  from Br.prems(1) obtain n where n: "p = Some x" "heap s x = Some n" "data n = k" "val n = w"
    "bck n = b" "is_tree s (left n) (Some x) l" "is_tree s (right n) (Some x) r"
    by (auto split: option.splits)
  from Br.prems(2) have d: "distinct (addrs l)" "distinct (addrs r)"
    "x \<notin> set (addrs l)" "x \<notin> set (addrs r)" "set (addrs l) \<inter> set (addrs r) = {}"
    by auto
  from Br.prems(4) have own: "slot_node sl \<noteq> Some x"
    "slot_node sl \<notin> Some ` set (addrs l)" "slot_node sl \<notin> Some ` set (addrs r)"
    by auto
  show ?case
  proof (cases "k = key")
    case True
    with Br.prems(5) have eq: "l = Leaf" "r = Leaf" "x = a" by simp_all
    let ?s0 = "delete_node a s"
    have "read_slot sl ?s0 = read_slot sl s"
      using own(1) eq(3) by (intro read_slot_frame) (auto simp: delete_node_def)
    with Br.prems(3) have rd: "read_slot sl ?s0 = ok p" by simp
    from write_slot_None_effect [OF rd] obtain s' where s':
      "write_slot sl None ?s0 = ok s'" "read_slot sl s' = ok None" "nxt s' = nxt ?s0"
      "\<forall>y. Some y \<noteq> slot_node sl \<longrightarrow> heap s' y = heap ?s0 y"
      "\<forall>d. sl \<noteq> RootSlot d \<longrightarrow> root s' d = root ?s0 d"
      "\<forall>y n. slot_node sl = Some y \<longrightarrow> heap ?s0 y = Some n \<longrightarrow>
         heap s' y = Some (if sl = LeftSlot y then n\<lparr>left := None\<rparr> else n\<lparr>right := None\<rparr>)"
      by blast
    have alloc: "\<forall>y. y \<noteq> a \<longrightarrow> heap s y \<noteq> None \<longrightarrow> heap s' y \<noteq> None"
    proof (intro allI impI)
      fix y assume y: "y \<noteq> a" "heap s y \<noteq> None"
      show "heap s' y \<noteq> None"
      proof (cases "slot_node sl = Some y")
        case True
        with y s'(6) show ?thesis by (auto simp: delete_node_def)
      next
        case False
        with y s'(4) show ?thesis by (auto simp: delete_node_def)
      qed
    qed
    have own': "\<forall>y n. slot_node sl = Some y \<longrightarrow> heap s y = Some n \<longrightarrow>
         heap s' y = Some (if sl = LeftSlot y then n\<lparr>left := None\<rparr> else n\<lparr>right := None\<rparr>)"
      using s'(6) own(1) eq(3) by (auto simp: delete_node_def)
    have "\<forall>y. y \<notin> set (addrs (Br l x k w r)) \<longrightarrow> Some y \<noteq> slot_node sl \<longrightarrow> heap s' y = heap s y"
      using s'(4) eq by (auto simp: delete_node_def)
    moreover have "nxt s' = nxt s" "\<forall>d. sl \<noteq> RootSlot d \<longrightarrow> root s' d = root s d"
      using s'(3,5) by (simp_all add: delete_node_def)
    moreover have "is_tree s' None b (del key (Br l x k w r))"
      using True eq by simp
    moreover have "write_slot (fst (find_slot key sl rem (Br l x k w r))) None ?s0 = ok s'"
      using True s'(1) by simp
    ultimately show ?thesis
      using s'(2) own' alloc by blast
  next
    case False
    note neq = False
    show ?thesis
    proof (cases "key < k")
      case True
      from neq True Br.prems(5) have sub: "sub_tree key l = Br Leaf a key v Leaf" by simp
      have rl: "read_slot (LeftSlot x) s = ok (left n)"
        using n(2) by (simp add: read_slot_def)
      have "slot_node (LeftSlot x) \<notin> Some ` set (addrs l)" using d(3) by auto
      from Br.IH(1) [OF n(6) d(1) rl this sub, of "Some (root_ptr l)"] obtain s' p' where s':
        "write_slot (fst (find_slot key (LeftSlot x) (Some (root_ptr l)) l)) None (delete_node a s) = ok s'"
        "read_slot (LeftSlot x) s' = ok p'" "is_tree s' p' (Some x) (del key l)" "nxt s' = nxt s"
        "\<forall>y. y \<notin> set (addrs l) \<longrightarrow> Some y \<noteq> slot_node (LeftSlot x) \<longrightarrow> heap s' y = heap s y"
        "\<forall>d. LeftSlot x \<noteq> RootSlot d \<longrightarrow> root s' d = root s d"
        "\<forall>y n. slot_node (LeftSlot x) = Some y \<longrightarrow> heap s y = Some n \<longrightarrow>
           heap s' y = Some (if LeftSlot x = LeftSlot y then n\<lparr>left := p'\<rparr> else n\<lparr>right := p'\<rparr>)"
        "\<forall>y. y \<noteq> a \<longrightarrow> heap s y \<noteq> None \<longrightarrow> heap s' y \<noteq> None"
        by blast
      from s'(7) n(2) have hx: "heap s' x = Some (n\<lparr>left := p'\<rparr>)" by simp
      have fr: "\<forall>y. y \<notin> set (addrs (Br l x k w r)) \<longrightarrow> heap s' y = heap s y"
        using s'(5) by simp
      have rt: "root s' = root s" using s'(6) by (simp add: fun_eq_iff)
      have "read_slot sl s' = read_slot sl s"
        using fr Br.prems(4) rt by (intro read_slot_frame) auto
      with Br.prems(3) n(1) have rd: "read_slot sl s' = ok (Some x)" by simp
      have tr: "is_tree s' (right n) (Some x) r"
      proof -
        have "\<forall>y \<in> set (addrs r). heap s' y = heap s y"
          using s'(5) d(4,5) by fastforce
        from is_tree_frame [OF this] n(7) show ?thesis by simp
      qed
      have tree: "is_tree s' (Some x) b (del key (Br l x k w r))"
        using neq True hx n(3,4,5) s'(3) tr by simp
      have own': "\<forall>y m. slot_node sl = Some y \<longrightarrow> heap s y = Some m \<longrightarrow>
           heap s' y = Some (if sl = LeftSlot y then m\<lparr>left := Some x\<rparr> else m\<lparr>right := Some x\<rparr>)"
      proof (intro allI impI)
        fix y m assume y: "slot_node sl = Some y" "heap s y = Some m"
        with Br.prems(4) have "y \<notin> set (addrs (Br l x k w r))" by auto
        with fr y have hy: "heap s' y = Some m" by simp
        show "heap s' y = Some (if sl = LeftSlot y then m\<lparr>left := Some x\<rparr> else m\<lparr>right := Some x\<rparr>)"
        proof (cases sl)
          case (RootSlot d)
          with y show ?thesis by simp
        next
          case (LeftSlot z)
          with y Br.prems(3) n(1) have "left m = Some x" by (simp add: read_slot_def)
          with LeftSlot y hy show ?thesis by simp
        next
          case (RightSlot z)
          with y Br.prems(3) n(1) have "right m = Some x" by (simp add: read_slot_def)
          with RightSlot y hy show ?thesis by simp
        qed
      qed
      have "write_slot (fst (find_slot key sl rem (Br l x k w r))) None (delete_node a s) = ok s'"
        using neq True s'(1) by simp
      moreover have "\<forall>y. y \<notin> set (addrs (Br l x k w r)) \<longrightarrow> Some y \<noteq> slot_node sl \<longrightarrow>
          heap s' y = heap s y"
        using fr by simp
      moreover have "\<forall>d. sl \<noteq> RootSlot d \<longrightarrow> root s' d = root s d"
        using rt by simp
      ultimately show ?thesis
        using rd tree s'(4,8) own' by blast
    next
      case ge: False
      from neq ge Br.prems(5) have sub: "sub_tree key r = Br Leaf a key v Leaf" by simp
      have rl: "read_slot (RightSlot x) s = ok (right n)"
        using n(2) by (simp add: read_slot_def)
      have "slot_node (RightSlot x) \<notin> Some ` set (addrs r)" using d(4) by auto
      from Br.IH(2) [OF n(7) d(2) rl this sub, of "Some (root_ptr r)"] obtain s' p' where s':
        "write_slot (fst (find_slot key (RightSlot x) (Some (root_ptr r)) r)) None (delete_node a s) = ok s'"
        "read_slot (RightSlot x) s' = ok p'" "is_tree s' p' (Some x) (del key r)" "nxt s' = nxt s"
        "\<forall>y. y \<notin> set (addrs r) \<longrightarrow> Some y \<noteq> slot_node (RightSlot x) \<longrightarrow> heap s' y = heap s y"
        "\<forall>d. RightSlot x \<noteq> RootSlot d \<longrightarrow> root s' d = root s d"
        "\<forall>y n. slot_node (RightSlot x) = Some y \<longrightarrow> heap s y = Some n \<longrightarrow>
           heap s' y = Some (if RightSlot x = LeftSlot y then n\<lparr>left := p'\<rparr> else n\<lparr>right := p'\<rparr>)"
        "\<forall>y. y \<noteq> a \<longrightarrow> heap s y \<noteq> None \<longrightarrow> heap s' y \<noteq> None"
        by blast
      from s'(7) n(2) have hx: "heap s' x = Some (n\<lparr>right := p'\<rparr>)" by simp
      have fr: "\<forall>y. y \<notin> set (addrs (Br l x k w r)) \<longrightarrow> heap s' y = heap s y"
        using s'(5) by simp
      have rt: "root s' = root s" using s'(6) by (simp add: fun_eq_iff)
      have "read_slot sl s' = read_slot sl s"
        using fr Br.prems(4) rt by (intro read_slot_frame) auto
      with Br.prems(3) n(1) have rd: "read_slot sl s' = ok (Some x)" by simp
      have tl: "is_tree s' (left n) (Some x) l"
      proof -
        have "\<forall>y \<in> set (addrs l). heap s' y = heap s y"
          using s'(5) d(3,5) by fastforce
        from is_tree_frame [OF this] n(6) show ?thesis by simp
      qed
      have tree: "is_tree s' (Some x) b (del key (Br l x k w r))"
        using neq ge hx n(3,4,5) s'(3) tl by simp
      have own': "\<forall>y m. slot_node sl = Some y \<longrightarrow> heap s y = Some m \<longrightarrow>
           heap s' y = Some (if sl = LeftSlot y then m\<lparr>left := Some x\<rparr> else m\<lparr>right := Some x\<rparr>)"
      proof (intro allI impI)
        fix y m assume y: "slot_node sl = Some y" "heap s y = Some m"
        with Br.prems(4) have "y \<notin> set (addrs (Br l x k w r))" by auto
        with fr y have hy: "heap s' y = Some m" by simp
        show "heap s' y = Some (if sl = LeftSlot y then m\<lparr>left := Some x\<rparr> else m\<lparr>right := Some x\<rparr>)"
        proof (cases sl)
          case (RootSlot d)
          with y show ?thesis by simp
        next
          case (LeftSlot z)
          with y Br.prems(3) n(1) have "left m = Some x" by (simp add: read_slot_def)
          with LeftSlot y hy show ?thesis by simp
        next
          case (RightSlot z)
          with y Br.prems(3) n(1) have "right m = Some x" by (simp add: read_slot_def)
          with RightSlot y hy show ?thesis by simp
        qed
      qed
      have "write_slot (fst (find_slot key sl rem (Br l x k w r))) None (delete_node a s) = ok s'"
        using neq ge s'(1) by simp
      moreover have "\<forall>y. y \<notin> set (addrs (Br l x k w r)) \<longrightarrow> Some y \<noteq> slot_node sl \<longrightarrow>
          heap s' y = heap s y"
        using fr by simp
      moreover have "\<forall>d. sl \<noteq> RootSlot d \<longrightarrow> root s' d = root s d"
        using rt by simp
      ultimately show ?thesis
        using rd tree s'(4,8) own' by blast
    qed
  qed
qed

lemma bst_sub: "bst t \<Longrightarrow> bst (sub_tree key t)"
  by (induction t) (auto simp: bst_Br)

lemma sub_tree_distinct: "distinct (addrs t) \<Longrightarrow> distinct (addrs (sub_tree key t))"
  by (induction t) auto

lemma remove_tree:
  assumes wf: "wf_dict s d t" and bst: "bst t" and t: "t = Br l0 a0 k0 v0 r0"
  shows "k0 \<noteq> key \<Longrightarrow>
         \<exists>s'. remove d key s = ok s' \<and> is_tree s' (root s' d) None (del key t) \<and> nxt s' = nxt s \<and>
           (\<forall>y. y \<notin> set (addrs t) \<longrightarrow> heap s' y = heap s y) \<and>
           (\<forall>d'. d' \<noteq> d \<longrightarrow> root s' d' = root s d') \<and>
           (\<forall>y. y \<notin> set (addrs (sub_tree key t)) \<longrightarrow> heap s y \<noteq> None \<longrightarrow> heap s' y \<noteq> None)"
proof (induction "size (sub_tree key t)" arbitrary: key rule: less_induct)
  case less
  note neq = less.prems
  from wf have tr: "is_tree s (root s d) None t" and dist: "distinct (addrs t)"
    by (simp_all add: wf_dict_def)
  have rd: "read_slot (RootSlot d) s = ok (root s d)"
    by (simp add: read_slot_def)
  from remove_loop_tree [OF tr rd]
  have loop: "remove_loop key (RootSlot d) None s = ok (find_slot key (RootSlot d) None t)" .
  from find_slot_rem [of key "RootSlot d" None t] t neq
  have rem: "snd (find_slot key (RootSlot d) None t) = Some (root_ptr (sub_tree key t))"
    by simp
  then obtain pR where pR: "find_slot key (RootSlot d) None t = (pR, Some (root_ptr (sub_tree key t)))"
    by (cases "find_slot key (RootSlot d) None t") auto
  show ?case
  proof (cases "sub_tree key t")
    case Leaf
    then have "del key t = t" by (simp add: del_absent sub_tree_has [symmetric])
    moreover have "remove d key s = ok s"
      using loop pR Leaf by (subst remove.simps) simp
    ultimately show ?thesis using tr by simp
  next
    case (Br l a k v r)
    with sub_tree_root [of key t l a k v r] have u: "sub_tree key t = Br l a key v r" by simp
    from is_tree_sub [OF tr u] obtain b' where tu: "is_tree s (Some a) b' (Br l a key v r)" ..
    then obtain n where n: "heap s a = Some n" "is_tree s (left n) (Some a) l"
      "is_tree s (right n) (Some a) r"
      by (auto split: option.splits)
    from sub_tree_distinct [OF dist, of key] u have du: "distinct (addrs (Br l a key v r))" by simp
    from bst_sub [OF bst, of key] u have bu: "bst (Br l a key v r)" by simp
    have ua: "set (addrs (Br l a key v r)) \<subseteq> set (addrs t)"
      using sub_tree_addrs [of key t] u by simp
    have usz: "size (Br l a key v r) \<le> size t"
      using sub_tree_size [of key t] u by simp
    have fs: "find_slot key (RootSlot d) None t = (pR, Some (Some a))"
      using pR u by simp
    show ?thesis
    proof (cases "l = Leaf \<and> r = Leaf")
      case True
      with u have ul: "sub_tree key t = Br Leaf a key v Leaf" by simp
      have "slot_node (RootSlot d) \<notin> Some ` set (addrs t)" by simp
      from remove_leaf_tree [OF tr dist rd this ul, of None] fs obtain s' p' where s':
        "write_slot pR None (delete_node a s) = ok s'"
        "read_slot (RootSlot d) s' = ok p'" "is_tree s' p' None (del key t)" "nxt s' = nxt s"
        "\<forall>y. y \<notin> set (addrs t) \<longrightarrow> Some y \<noteq> slot_node (RootSlot d) \<longrightarrow> heap s' y = heap s y"
        "\<forall>d'. RootSlot d \<noteq> RootSlot d' \<longrightarrow> root s' d' = root s d'"
        "\<forall>y. y \<noteq> a \<longrightarrow> heap s y \<noteq> None \<longrightarrow> heap s' y \<noteq> None"
        by auto
      from s'(2) have "p' = root s' d" by (simp add: read_slot_def)
      moreover have "isLeaf n" using True n by (simp add: isLeaf_def)
      then have "remove d key s = ok s'"
        using loop fs n(1) s'(1) by (subst remove.simps) simp
      ultimately show ?thesis
        using s'(3,4,5,6,7) u True by auto
    next
      case False
      \<comment> \<open>the replacement: its address, its key, and which side it comes from\<close>
      have "\<exists>am m nm. (if left n \<noteq> None
                then bind_res (deref s (left n)) (\<lambda>_. maxKey s (the (left n)))
                else bind_res (deref s (right n)) (\<lambda>_. minKey s (the (right n)))) = ok am \<and>
              heap s am = Some nm \<and> data nm = m \<and> m \<in> set (keys l) \<union> set (keys r) \<and>
              upd_key a m (del m t) = del key t"
      proof (cases "l = Leaf")
        case lf: False
        with n(2) obtain la where la: "left n = Some la" by (cases "left n") auto
        with n(2) have tl: "is_tree s (Some la) (Some a) l" by simp
        then obtain nla where "heap s la = Some nla" by (cases l) (auto split: option.splits)
        moreover from lf obtain am m where mx: "max_node l = Some (am, m)"
          using max_node_Some by blast
        moreover note maxKey_node [OF tl mx] max_node_in [OF mx] del_via_max [OF bst dist u mx]
        ultimately show ?thesis using la by auto
      next
        case lf: True
        with False have rf: "r \<noteq> Leaf" by simp
        from lf n(2) have ln: "left n = None" by simp
        from rf n(3) obtain ra where ra: "right n = Some ra" by (cases "right n") auto
        with n(3) have tr': "is_tree s (Some ra) (Some a) r" by simp
        then obtain nra where "heap s ra = Some nra" by (cases r) (auto split: option.splits)
        moreover from rf obtain am m where mn: "min_node r = Some (am, m)"
          using min_node_Some by blast
        moreover from u lf have "sub_tree key t = Br Leaf a key v r" by simp
        note minKey_node [OF tr' mn] min_node_in [OF mn] del_via_min [OF bst dist this mn]
        ultimately show ?thesis using ra ln by auto
      qed
      then obtain am m nm where rep:
        "(if left n \<noteq> None
          then bind_res (deref s (left n)) (\<lambda>_. maxKey s (the (left n)))
          else bind_res (deref s (right n)) (\<lambda>_. minKey s (the (right n)))) = ok am"
        "heap s am = Some nm" "data nm = m" "m \<in> set (keys l) \<union> set (keys r)"
        "upd_key a m (del m t) = del key t"
        by blast
      \<comment> \<open>the recursive call finds the replacement strictly below the node\<close>
      from bu rep(4) have mk: "m \<noteq> key" by (auto simp: bst_Br)
      from rep(4) have "m \<in> set (keys (Br l a key v r))" by auto
      from sub_tree_reach [OF bst u this]
      have sm: "sub_tree m t = sub_tree m (Br l a key v r)" .
      have sm': "sub_tree m t = sub_tree m l \<or> sub_tree m t = sub_tree m r"
        using sm mk by auto
      then have small: "size (sub_tree m t) < size (sub_tree key t)"
        using sub_tree_size [of m l] sub_tree_size [of m r] u by auto
      have sma: "set (addrs (sub_tree m t)) \<subseteq> set (addrs l) \<union> set (addrs r)"
        using sm' sub_tree_addrs [of m l] sub_tree_addrs [of m r] by auto
      have "k0 \<noteq> m"
      proof
        assume "k0 = m"
        with t have "sub_tree m t = t" by simp
        with small usz u show False by simp
      qed
      from less.hyps [OF small this] obtain s1 where s1:
        "remove d m s = ok s1" "is_tree s1 (root s1 d) None (del m t)" "nxt s1 = nxt s"
        "\<forall>y. y \<notin> set (addrs t) \<longrightarrow> heap s1 y = heap s y"
        "\<forall>d'. d' \<noteq> d \<longrightarrow> root s1 d' = root s d'"
        "\<forall>y. y \<notin> set (addrs (sub_tree m t)) \<longrightarrow> heap s y \<noteq> None \<longrightarrow> heap s1 y \<noteq> None"
        by blast
      from du sma have "a \<notin> set (addrs (sub_tree m t))" by auto
      with s1(6) n(1) obtain n1 where n1: "heap s1 a = Some n1" by auto
      let ?s' = "set_node a (n1\<lparr>data := m\<rparr>) s1"
      have nl: "\<not> isLeaf n"
        using False n(2,3) by (auto simp: isLeaf_def)
      have run: "remove d key s = ok ?s'"
        using loop fs n(1) nl rep(1,2,3) s1(1) n1 by (subst remove.simps) simp
      have "is_tree ?s' (root s1 d) None (upd_key a m (del m t))"
        using is_tree_upd_key [OF s1(2) n1] .
      with rep(5) have tree: "is_tree ?s' (root ?s' d) None (del key t)"
        by (simp add: set_node_def)
      have "a \<in> set (addrs t)" using ua by auto
      with s1(4) have frame: "\<forall>y. y \<notin> set (addrs t) \<longrightarrow> heap ?s' y = heap s y"
        by (auto simp: set_node_def)
      have alloc: "\<forall>y. y \<notin> set (addrs (sub_tree key t)) \<longrightarrow> heap s y \<noteq> None \<longrightarrow> heap ?s' y \<noteq> None"
        using s1(6) sma u by (auto simp: set_node_def)
      show ?thesis
        using run tree frame alloc s1(3,5) by (auto simp: set_node_def)
    qed
  qed
qed

lemma filter_last_distinct:
  "distinct xs \<Longrightarrow> xs \<noteq> [] \<Longrightarrow> filter (\<lambda>x. x \<noteq> last xs) xs @ [last xs] = xs"
proof (induction xs rule: rev_induct)
  case Nil
  then show ?case by simp
next
  case (snoc x xs)
  then have "x \<notin> set xs" by simp
  then have "filter (\<lambda>y. y \<noteq> x) xs = xs" by (induction xs) auto
  then show ?case by simp
qed

lemma filter_hd_distinct:
  "distinct xs \<Longrightarrow> xs \<noteq> [] \<Longrightarrow> hd xs # filter (\<lambda>x. x \<noteq> hd xs) xs = xs"
proof (cases xs)
  case Nil
  assume "xs \<noteq> []"
  with Nil show ?thesis by simp
next
  case (Cons x ys)
  assume "distinct xs"
  with Cons have "x \<notin> set ys" by simp
  then have "filter (\<lambda>y. y \<noteq> x) ys = ys" by (induction ys) auto
  with Cons show ?thesis by simp
qed

lemma filter_absent: "key \<notin> set xs \<Longrightarrow> filter (\<lambda>x. x \<noteq> key) xs = xs"
  by (induction xs) auto

lemma bst_distinct: "bst t \<Longrightarrow> distinct (keys t)"
  by (simp add: bst_def strict_sorted_iff)


lemma del_keys: "bst t \<Longrightarrow> keys (del key t) = filter (\<lambda>x. x \<noteq> key) (keys t)"
proof (induction key t rule: del.induct)
  case (1 key)
  then show ?case by simp
next
  case (2 key l a k v r)
  from "2.prems" have b: "bst l" "bst r" "\<forall>x \<in> set (keys l). x < k" "\<forall>x \<in> set (keys r). k < x"
    by (simp_all add: bst_Br)
  show ?case
  proof (cases "k = key")
    case True
    from b True have nl: "key \<notin> set (keys l)" and nr: "key \<notin> set (keys r)" by auto
    then have rhs: "filter (\<lambda>x. x \<noteq> key) (keys (Br l a k v r)) = keys l @ keys r"
      using True by (simp add: filter_absent)
    show ?thesis
    proof (cases "l = Leaf \<and> r = Leaf")
      case leaf: True
      with True show ?thesis by simp
    next
      case nonleaf: False
      show ?thesis
      proof (cases "l = Leaf")
        case False
        then obtain am m where mx: "max_node l = Some (am, m)" using max_node_Some by blast
        from max_node_last [OF mx] have m: "keys l \<noteq> []" "m = last (keys l)" by simp_all
        from "2.IH"(1) [OF True nonleaf False b(1)] mx
        have "keys (del m l) = filter (\<lambda>x. x \<noteq> m) (keys l)" by simp
        with filter_last_distinct [OF bst_distinct [OF b(1)] m(1)] m(2)
        have "keys (del m l) @ [m] = keys l" by simp
        with True nonleaf False mx rhs show ?thesis by simp
      next
        case lf: True
        with nonleaf have rf: "r \<noteq> Leaf" by simp
        then obtain am m where mn: "min_node r = Some (am, m)" using min_node_Some by blast
        from min_node_hd [OF mn] have m: "keys r \<noteq> []" "m = hd (keys r)" by simp_all
        from "2.IH"(2) [OF True nonleaf _ b(2)] lf mn
        have "keys (del m r) = filter (\<lambda>x. x \<noteq> m) (keys r)" by simp
        with filter_hd_distinct [OF bst_distinct [OF b(2)] m(1)] m(2)
        have "m # keys (del m r) = keys r" by simp
        with True nonleaf lf mn rhs show ?thesis by simp
      qed
    qed
  next
    case False
    show ?thesis
    proof (cases "key < k")
      case True
      with b(4) have "key \<notin> set (keys r)" by auto
      with "2.IH"(3) [OF False True b(1)] False True show ?thesis
        by (simp add: filter_absent)
    next
      case ge: False
      with False b(3) have "key \<notin> set (keys l)" by auto
      with "2.IH"(4) [OF False ge b(2)] False ge show ?thesis
        by (simp add: filter_absent)
    qed
  qed
qed

lemma del_bst: "bst t \<Longrightarrow> bst (del key t)"
  using sorted_wrt_filter [of "(<)" "keys t" "\<lambda>x. x \<noteq> key"] by (simp add: bst_def del_keys)

lemma remove_uninit:
  assumes "is_tree s (root s d) None t" and "t = Leaf \<or> (\<exists>l a v r. t = Br l a key v r)"
  shows "remove d key s = fail UninitRead"
proof -
  have rd: "read_slot (RootSlot d) s = ok (root s d)"
    by (simp add: read_slot_def)
  from remove_loop_tree [OF assms(1) rd]
  have "remove_loop key (RootSlot d) None s = ok (find_slot key (RootSlot d) None t)" .
  moreover from assms(2) have "find_slot key (RootSlot d) None t = (RootSlot d, None)" by auto
  ultimately show ?thesis by (subst remove.simps) simp
qed

lemma remove_wf:
  assumes "wf_dict s d t" and "bst t" and "t = Br l a k v r" and "k \<noteq> key"
  shows "\<exists>s'. remove d key s = ok s' \<and> wf_dict s' d (del key t) \<and> bst (del key t) \<and>
           del key t \<noteq> Leaf \<and> keys (del key t) = filter (\<lambda>x. x \<noteq> key) (keys t) \<and>
           (has_tree t key \<or> s' = s)"
proof -
  from remove_tree [OF assms] obtain s' where s':
    "remove d key s = ok s'" "is_tree s' (root s' d) None (del key t)" "nxt s' = nxt s"
    by blast
  from assms(1) have "distinct (addrs t)" "\<forall>x \<in> set (addrs t). x < nxt s"
    by (simp_all add: wf_dict_def)
  with del_addrs [of key t] del_distinct [of t key] s'(2,3)
  have "wf_dict s' d (del key t)" by (auto simp: wf_dict_def)
  moreover have "del key t \<noteq> Leaf" using assms(3,4) by auto
  moreover have "has_tree t key \<or> s' = s"
  proof (cases "has_tree t key")
    case True
    then show ?thesis by simp
  next
    case False
    from assms(1) have tr: "is_tree s (root s d) None t" by (simp add: wf_dict_def)
    have rd: "read_slot (RootSlot d) s = ok (root s d)" by (simp add: read_slot_def)
    from remove_loop_tree [OF tr rd]
    have "remove_loop key (RootSlot d) None s = ok (find_slot key (RootSlot d) None t)" .
    moreover from False have st: "sub_tree key t = Leaf"
      by (simp add: sub_tree_has)
    from find_slot_rem [of key "RootSlot d" None t] assms(3,4)
    have "snd (find_slot key (RootSlot d) None t) = Some (root_ptr (sub_tree key t))"
      by simp
    with st have "snd (find_slot key (RootSlot d) None t) = Some None"
      by simp
    ultimately have "remove d key s = ok s"
      by (subst remove.simps) (cases "find_slot key (RootSlot d) None t", simp)
    with s'(1) show ?thesis by simp
  qed
  ultimately show ?thesis
    using s'(1) del_bst [OF assms(2)] del_keys [OF assms(2)] by blast
qed

subsection \<open>The test states are well-formed\<close>

lemma state_538_wf: "wf_dict state_538 0 tree_538 \<and> bst tree_538"
  by (simp add: state_538_def tree_538_def wf_dict_def bst_def result_state_def
      model_defs model_simps cong: bind_res_weak_cong)


lemma state_538_7_facts:
  "wf_dict state_538_7 0 tree_538 \<and> wf_dict state_538_7 1 tree_7 \<and> root state_538 1 = None"
  by (simp add: state_538_7_def state_538_def tree_538_def tree_7_def wf_dict_def bst_def result_state_def
      model_defs model_simps cong: bind_res_weak_cong)


subsection \<open>Runs of add and remove\<close>

lemma ins_tree_not_Leaf: "ins_tree key v a t \<noteq> Leaf"
  by (cases t) auto

lemma run_inv:
  assumes "wf_dict s d t" and "bst t" and "run d ops s = ok s'"
  shows "\<exists>t'. wf_dict s' d t' \<and> bst t' \<and> set (keys t') = keys_after ops (set (keys t)) \<and>
           (t \<noteq> Leaf \<or> ops \<noteq> [] \<longrightarrow> t' \<noteq> Leaf)"
  using assms
proof (induction ops arbitrary: s t)
  case Nil
  then show ?case by auto
next
  case (Cons x ops)
  show ?case
  proof (cases x)
    case (Add k v)
    from add_wf [OF Cons.prems(1), of k v] obtain s1 where s1:
      "add d k v s = ok s1" "wf_dict s1 d (ins_tree k v (nxt s) t)" by blast
    from Cons.prems(3) Add s1(1) have "run d ops s1 = ok s'" by simp
    from Cons.IH [OF s1(2) ins_tree_bst [OF Cons.prems(2)] this] Add show ?thesis
      by (auto simp: ins_tree_keys ins_tree_not_Leaf)
  next
    case (Remove k)
    from Cons.prems(1) have tr: "is_tree s (root s d) None t" by (simp add: wf_dict_def)
    show ?thesis
    proof (cases t)
      case Leaf
      with remove_uninit [OF tr, of k] Cons.prems(3) Remove show ?thesis by simp
    next
      case (Br l a k0 v r)
      show ?thesis
      proof (cases "k0 = k")
        case True
        with Br remove_uninit [OF tr, of k] Cons.prems(3) Remove show ?thesis by simp
      next
        case False
        from remove_wf [OF Cons.prems(1,2) Br False] obtain s1 where s1:
          "remove d k s = ok s1" "wf_dict s1 d (del k t)" "bst (del k t)" "del k t \<noteq> Leaf"
          "keys (del k t) = filter (\<lambda>x. x \<noteq> k) (keys t)" by blast
        from Cons.prems(3) Remove s1(1) have "run d ops s1 = ok s'" by simp
        from Cons.IH [OF s1(2,3) this] s1(4,5) Remove show ?thesis
          by (auto simp: set_diff_eq)
      qed
    qed
  qed
qed

lemma run_iteration:
  assumes "run d ops empty_state = ok s" and "ops \<noteq> []"
  shows "\<exists>ks. iteration d s = ok ks \<and> sorted_wrt (<) ks \<and> set ks = keys_after ops {}"
proof -
  have "wf_dict empty_state d Leaf" "bst (Leaf :: ('a, 'b) tree)"
    by (simp_all add: wf_dict_def empty_state_def)
  from run_inv [OF this assms(1)] assms(2) obtain t where t:
    "wf_dict s d t" "bst t" "set (keys t) = keys_after ops {}" "t \<noteq> Leaf" by auto
  from iteration_tree [OF t(1,4)] t(2,3) show ?thesis
    by (simp add: bst_def)
qed

subsection \<open>copy and copy assignment\<close>

lemma fst_new_node [simp]: "fst (new_node n s) = nxt s"
  by (simp add: new_node_def)

lemma is_tree_heap: "is_tree s p b t \<Longrightarrow> x \<in> set (addrs t) \<Longrightarrow> heap s x \<noteq> None"
  by (induction t arbitrary: p b) (auto split: option.splits)

text \<open>Linking a copied subtree below its new parent: the child pointer of the
  parent and the \<open>back\<close> pointer of the subtree's root are assigned.\<close>

lemma link_child:
  assumes "is_tree s (Some c) None tc" and "distinct (addrs tc)" and "nP \<notin> set (addrs tc)"
    and "heap s c = Some nc"
  shows "is_tree (set_node c (nc\<lparr>bck := Some nP\<rparr>) (set_node nP N s)) (Some c) (Some nP) tc"
proof (cases tc)
  case Leaf
  with assms(1) show ?thesis by simp
next
  case (Br l x k v r)
  let ?s' = "set_node c (nc\<lparr>bck := Some nP\<rparr>) (set_node nP N s)"
  from assms(1,4) Br have n: "x = c" "data nc = k" "val nc = v"
    "is_tree s (left nc) (Some c) l" "is_tree s (right nc) (Some c) r"
    by auto
  from assms(2,3) Br n(1) have out: "c \<notin> set (addrs l)" "c \<notin> set (addrs r)"
    "nP \<notin> set (addrs l)" "nP \<notin> set (addrs r)" "nP \<noteq> c" by auto
  have "\<forall>y \<in> set (addrs l). heap ?s' y = heap s y" "\<forall>y \<in> set (addrs r). heap ?s' y = heap s y"
    using out by (auto simp: set_node_def)
  from is_tree_frame [OF this(1)] is_tree_frame [OF this(2)] n Br show ?thesis
    by (simp add: set_node_def)
qed

lemma copy_tree:
  assumes "is_tree s (Some a) b t" and "\<forall>x \<in> set (addrs t). x < nxt s"
  shows "\<exists>s' t'. copy dv (Some a) s = ok (nxt s, s') \<and> is_tree s' (Some (nxt s)) None t' \<and>
           keys t' = keys t \<and> (\<forall>e \<in> set (entries t'). snd e = dv) \<and>
           distinct (addrs t') \<and> set (addrs t') = {nxt s ..< nxt s'} \<and> nxt s < nxt s' \<and>
           root s' = root s \<and> (\<forall>x. x < nxt s \<longrightarrow> heap s' x = heap s x)"
  using assms
proof (induction t arbitrary: a b s)
  case Leaf
  then show ?case by simp
next
  case (Br l x k v r)
  from Br.prems(1) obtain n where n: "x = a" "heap s a = Some n" "data n = k"
    "is_tree s (left n) (Some a) l" "is_tree s (right n) (Some a) r"
    by (auto split: option.splits)
  from Br.prems(2) have lt: "\<forall>y \<in> set (addrs l). y < nxt s" "\<forall>y \<in> set (addrs r). y < nxt s"
    by auto
  let ?nP = "nxt s"
  let ?N0 = "Node_kb dv k None :: ('a, 'b) Node"
  let ?s1 = "snd (new_node ?N0 s)"
  have s1: "heap ?s1 ?nP = Some ?N0" "nxt ?s1 = Suc ?nP" "root ?s1 = root s"
    "\<forall>y. y < nxt s \<longrightarrow> heap ?s1 y = heap s y"
    by (simp_all add: new_node_def)
  \<comment> \<open>the left subtree is copied and linked\<close>
  have "\<exists>s4 tl. (if left n \<noteq> None then
            bind_res (copy dv (left n) ?s1) (\<lambda>(l, s2).
            bind_res (write_slot (LeftSlot ?nP) (Some l) s2) (\<lambda>s3.
            bind_res (deref s3 (Some l)) (\<lambda>nl. ok (set_node l (nl\<lparr>bck := Some ?nP\<rparr>) s3))))
          else ok ?s1) = ok s4 \<and>
          heap s4 ?nP = Some (?N0\<lparr>left := root_ptr tl\<rparr>) \<and>
          is_tree s4 (root_ptr tl) (Some ?nP) tl \<and> keys tl = keys l \<and>
          (\<forall>e \<in> set (entries tl). snd e = dv) \<and> distinct (addrs tl) \<and>
          set (addrs tl) = {Suc ?nP ..< nxt s4} \<and> Suc ?nP \<le> nxt s4 \<and> root s4 = root s \<and>
          (\<forall>y. y < nxt s \<longrightarrow> heap s4 y = heap s y)"
  proof (cases "left n")
    case None
    with n(4) have "l = Leaf" by simp
    with None s1 show ?thesis
      by (intro exI [of _ ?s1] exI [of _ Leaf]) (simp add: Node_kb_def)
  next
    case (Some la)
    with n(4) have tl: "is_tree s (Some la) (Some a) l" by simp
    have "\<forall>y \<in> set (addrs l). heap ?s1 y = heap s y" using lt(1) s1(4) by simp
    from is_tree_frame [OF this] tl have tl1: "is_tree ?s1 (Some la) (Some a) l" by simp
    have "\<forall>y \<in> set (addrs l). y < nxt ?s1" using lt(1) s1(2) by auto
    from Br.IH(1) [OF tl1 this] obtain s2 tc where s2:
      "copy dv (Some la) ?s1 = ok (nxt ?s1, s2)" "is_tree s2 (Some (nxt ?s1)) None tc"
      "keys tc = keys l" "\<forall>e \<in> set (entries tc). snd e = dv" "distinct (addrs tc)"
      "set (addrs tc) = {nxt ?s1 ..< nxt s2}" "nxt ?s1 < nxt s2" "root s2 = root ?s1"
      "\<forall>y. y < nxt ?s1 \<longrightarrow> heap s2 y = heap ?s1 y"
      by blast
    let ?c = "Suc ?nP"
    from s2(2) s1(2) obtain nc where nc: "heap s2 ?c = Some nc"
      by (cases tc) (auto split: option.splits)
    from s2(9) s1(1,2) have hP: "heap s2 ?nP = Some ?N0" by simp
    let ?s3 = "set_node ?nP (?N0\<lparr>left := Some ?c\<rparr>) s2"
    let ?s4 = "set_node ?c (nc\<lparr>bck := Some ?nP\<rparr>) ?s3"
    have "?nP \<notin> set (addrs tc)" using s2(6) s1(2) by simp
    from link_child [OF _ s2(5) this nc, of "?N0\<lparr>left := Some ?c\<rparr>"] s2(2) s1(2)
    have t4: "is_tree ?s4 (Some ?c) (Some ?nP) tc" by simp
    from s2(2) s1(2) have rp: "root_ptr tc = Some ?c" using is_tree_root_ptr by fastforce
    have run: "(if left n \<noteq> None then
            bind_res (copy dv (left n) ?s1) (\<lambda>(l, s2).
            bind_res (write_slot (LeftSlot ?nP) (Some l) s2) (\<lambda>s3.
            bind_res (deref s3 (Some l)) (\<lambda>nl. ok (set_node l (nl\<lparr>bck := Some ?nP\<rparr>) s3))))
          else ok ?s1) = ok ?s4"
      using Some s2(1) s1(2) hP nc by (simp add: write_slot_def set_node_def)
    have "heap ?s4 ?nP = Some (?N0\<lparr>left := root_ptr tc\<rparr>)"
      using rp by (simp add: set_node_def)
    moreover have "set (addrs tc) = {Suc ?nP ..< nxt ?s4}" "Suc ?nP \<le> nxt ?s4" "root ?s4 = root s"
      using s2(6,7,8) s1(2,3) by (simp_all add: set_node_def)
    moreover have "\<forall>y. y < nxt s \<longrightarrow> heap ?s4 y = heap s y"
      using s2(9) s1(2,4) by (simp add: set_node_def)
    ultimately show ?thesis
      using run t4 rp s2(3,4,5) by (intro exI [of _ ?s4] exI [of _ tc]) simp
  qed
  then obtain s4 tl where s4: "(if left n \<noteq> None then
            bind_res (copy dv (left n) ?s1) (\<lambda>(l, s2).
            bind_res (write_slot (LeftSlot ?nP) (Some l) s2) (\<lambda>s3.
            bind_res (deref s3 (Some l)) (\<lambda>nl. ok (set_node l (nl\<lparr>bck := Some ?nP\<rparr>) s3))))
          else ok ?s1) = ok s4"
    "heap s4 ?nP = Some (?N0\<lparr>left := root_ptr tl\<rparr>)"
    "is_tree s4 (root_ptr tl) (Some ?nP) tl" "keys tl = keys l"
    "\<forall>e \<in> set (entries tl). snd e = dv" "distinct (addrs tl)"
    "set (addrs tl) = {Suc ?nP ..< nxt s4}" "Suc ?nP \<le> nxt s4" "root s4 = root s"
    "\<forall>y. y < nxt s \<longrightarrow> heap s4 y = heap s y"
    by blast
  \<comment> \<open>the right subtree is copied and linked\<close>
  have "\<exists>s7 tr. (if right n \<noteq> None then
            bind_res (copy dv (right n) s4) (\<lambda>(r, s5).
            bind_res (write_slot (RightSlot ?nP) (Some r) s5) (\<lambda>s6.
            bind_res (deref s6 (Some r)) (\<lambda>nr. ok (set_node r (nr\<lparr>bck := Some ?nP\<rparr>) s6))))
          else ok s4) = ok s7 \<and>
          heap s7 ?nP = Some (?N0\<lparr>left := root_ptr tl, right := root_ptr tr\<rparr>) \<and>
          is_tree s7 (root_ptr tr) (Some ?nP) tr \<and> keys tr = keys r \<and>
          (\<forall>e \<in> set (entries tr). snd e = dv) \<and> distinct (addrs tr) \<and>
          set (addrs tr) = {nxt s4 ..< nxt s7} \<and> nxt s4 \<le> nxt s7 \<and> root s7 = root s \<and>
          (\<forall>y. y < nxt s4 \<longrightarrow> y \<noteq> ?nP \<longrightarrow> heap s7 y = heap s4 y)"
  proof (cases "right n")
    case None
    with n(5) have "r = Leaf" by simp
    with None s4 show ?thesis
      by (intro exI [of _ s4] exI [of _ Leaf]) (simp add: Node_kb_def)
  next
    case (Some ra)
    with n(5) have tr: "is_tree s (Some ra) (Some a) r" by simp
    have "\<forall>y \<in> set (addrs r). heap s4 y = heap s y" using lt(2) s4(10) by simp
    from is_tree_frame [OF this] tr have tr4: "is_tree s4 (Some ra) (Some a) r" by simp
    have "\<forall>y \<in> set (addrs r). y < nxt s4" using lt(2) s4(8) by auto
    from Br.IH(2) [OF tr4 this] obtain s5 tc where s5:
      "copy dv (Some ra) s4 = ok (nxt s4, s5)" "is_tree s5 (Some (nxt s4)) None tc"
      "keys tc = keys r" "\<forall>e \<in> set (entries tc). snd e = dv" "distinct (addrs tc)"
      "set (addrs tc) = {nxt s4 ..< nxt s5}" "nxt s4 < nxt s5" "root s5 = root s4"
      "\<forall>y. y < nxt s4 \<longrightarrow> heap s5 y = heap s4 y"
      by blast
    let ?c = "nxt s4"
    from s5(2) obtain nc where nc: "heap s5 ?c = Some nc"
      by (cases tc) (auto split: option.splits)
    from s5(9) s4(2,8) have hP: "heap s5 ?nP = Some (?N0\<lparr>left := root_ptr tl\<rparr>)" by simp
    let ?s6 = "set_node ?nP (?N0\<lparr>left := root_ptr tl, right := Some ?c\<rparr>) s5"
    let ?s7 = "set_node ?c (nc\<lparr>bck := Some ?nP\<rparr>) ?s6"
    have "?nP \<notin> set (addrs tc)" using s5(6) s4(8) by simp
    from link_child [OF s5(2,5) this nc, of "?N0\<lparr>left := root_ptr tl, right := Some ?c\<rparr>"]
    have t7: "is_tree ?s7 (Some ?c) (Some ?nP) tc" .
    from s5(2) have rp: "root_ptr tc = Some ?c" using is_tree_root_ptr by fastforce
    have run: "(if right n \<noteq> None then
            bind_res (copy dv (right n) s4) (\<lambda>(r, s5).
            bind_res (write_slot (RightSlot ?nP) (Some r) s5) (\<lambda>s6.
            bind_res (deref s6 (Some r)) (\<lambda>nr. ok (set_node r (nr\<lparr>bck := Some ?nP\<rparr>) s6))))
          else ok s4) = ok ?s7"
      using Some s5(1) hP nc s4(8) by (simp add: write_slot_def set_node_def)
    have "heap ?s7 ?nP = Some (?N0\<lparr>left := root_ptr tl, right := root_ptr tc\<rparr>)"
      using rp s4(8) by (simp add: set_node_def)
    moreover have "set (addrs tc) = {nxt s4 ..< nxt ?s7}" "nxt s4 \<le> nxt ?s7" "root ?s7 = root s"
      using s5(6,7,8) s4(9) by (simp_all add: set_node_def)
    moreover have "\<forall>y. y < nxt s4 \<longrightarrow> y \<noteq> ?nP \<longrightarrow> heap ?s7 y = heap s4 y"
      using s5(9) by (simp add: set_node_def)
    ultimately show ?thesis
      using run t7 rp s5(3,4,5) by (intro exI [of _ ?s7] exI [of _ tc]) simp
  qed
  then obtain s7 tr where s7: "(if right n \<noteq> None then
            bind_res (copy dv (right n) s4) (\<lambda>(r, s5).
            bind_res (write_slot (RightSlot ?nP) (Some r) s5) (\<lambda>s6.
            bind_res (deref s6 (Some r)) (\<lambda>nr. ok (set_node r (nr\<lparr>bck := Some ?nP\<rparr>) s6))))
          else ok s4) = ok s7"
    "heap s7 ?nP = Some (?N0\<lparr>left := root_ptr tl, right := root_ptr tr\<rparr>)"
    "is_tree s7 (root_ptr tr) (Some ?nP) tr" "keys tr = keys r"
    "\<forall>e \<in> set (entries tr). snd e = dv" "distinct (addrs tr)"
    "set (addrs tr) = {nxt s4 ..< nxt s7}" "nxt s4 \<le> nxt s7" "root s7 = root s"
    "\<forall>y. y < nxt s4 \<longrightarrow> y \<noteq> ?nP \<longrightarrow> heap s7 y = heap s4 y"
    by blast
  have run: "copy dv (Some a) s = ok (?nP, s7)"
    apply (subst copy.simps)
    apply (simp only: deref_Some [OF n(2)] bind_ok n(3) split_beta fst_new_node s4(1) s7(1))
    done
  have "\<forall>y \<in> set (addrs tl). heap s7 y = heap s4 y"
    using s7(10) s4(7) by auto
  from is_tree_frame [OF this] s4(3) have tl7: "is_tree s7 (root_ptr tl) (Some ?nP) tl" by simp
  let ?t' = "Br tl ?nP k dv tr"
  have "is_tree s7 (Some ?nP) None ?t'"
    using s7(2,3) tl7 by (simp add: Node_kb_def)
  moreover have "keys ?t' = keys (Br l x k v r)" using s4(4) s7(4) by simp
  moreover have "\<forall>e \<in> set (entries ?t'). snd e = dv" using s4(5) s7(5) by auto
  moreover have "distinct (addrs ?t')" using s4(6,7,8) s7(6,7,8) by auto
  moreover have "set (addrs ?t') = {?nP ..< nxt s7}" using s4(7,8) s7(7,8) by auto
  moreover have "?nP < nxt s7" using s4(8) s7(8) by simp
  moreover have "\<forall>y. y < nxt s \<longrightarrow> heap s7 y = heap s y"
    using s7(10) s4(8,10) by auto
  ultimately show ?case
    using run s7(9) by blast
qed

lemma is_tree_set_root [simp]: "is_tree (set_root d q s) p b t = is_tree s p b t"
  by (rule is_tree_frame) (simp add: set_root_def)

lemma copy_assign_wf:
  assumes "this \<noteq> other" and "wf_dict s this t" and "t \<noteq> Leaf"
    and "wf_dict s other u" and "u \<noteq> Leaf" and "set (addrs t) \<inter> set (addrs u) = {}"
  shows "\<exists>s' u'. copy_assign dv this other s = ok s' \<and> wf_dict s' this u' \<and> keys u' = keys u \<and>
           (\<forall>e \<in> set (entries u'). snd e = dv) \<and> wf_dict s' other u \<and>
           set (addrs u') \<inter> set (addrs u) = {}"
proof -
  from assms(2,3) obtain a where a: "root s this = Some a" "is_tree s (Some a) None t"
    "distinct (addrs t)"
    by (cases "root s this") (auto simp: wf_dict_def)
  from assms(4,5) obtain c where c: "root s other = Some c" "is_tree s (Some c) None u"
    "distinct (addrs u)" "\<forall>x \<in> set (addrs u). x < nxt s"
    by (cases "root s other") (auto simp: wf_dict_def)
  have rd: "read_slot (RootSlot this) s = ok (Some a)"
    using a(1) by (simp add: read_slot_def)
  have "slot_node (RootSlot this) \<notin> Some ` set (addrs t)" by simp
  from freeNodes_tree [OF a(2,3) rd this] obtain s1 where s1:
    "freeNodes (RootSlot this) s = ok s1" "nxt s1 = nxt s"
    "\<forall>x. x \<notin> set (addrs t) \<longrightarrow> Some x \<noteq> slot_node (RootSlot this) \<longrightarrow> heap s1 x = heap s x"
    "\<forall>d. RootSlot this \<noteq> RootSlot d \<longrightarrow> root s1 d = root s d"
    by blast
  from s1(4) assms(1) c(1) have r1: "root s1 other = Some c" by simp
  have "\<forall>x \<in> set (addrs u). heap s1 x = heap s x"
    using s1(3) assms(6) by auto
  from is_tree_frame [OF this] c(2) have u1: "is_tree s1 (Some c) None u" by simp
  have "\<forall>x \<in> set (addrs u). x < nxt s1" using c(4) s1(2) by simp
  from copy_tree [OF u1 this, of dv] obtain s2 u' where s2:
    "copy dv (Some c) s1 = ok (nxt s1, s2)" "is_tree s2 (Some (nxt s1)) None u'"
    "keys u' = keys u" "\<forall>e \<in> set (entries u'). snd e = dv" "distinct (addrs u')"
    "set (addrs u') = {nxt s1 ..< nxt s2}" "nxt s1 < nxt s2" "root s2 = root s1"
    "\<forall>x. x < nxt s1 \<longrightarrow> heap s2 x = heap s1 x"
    by blast
  let ?s' = "set_root this (Some (nxt s1)) s2"
  have run: "copy_assign dv this other s = ok ?s'"
    using assms(1) s1(1) r1 s2(1) by (simp add: copy_assign_def)
  have w1: "wf_dict ?s' this u'"
    using s2(2,5,6) by (simp add: wf_dict_def) (simp add: set_root_def)
  have "\<forall>x \<in> set (addrs u). heap ?s' x = heap s1 x"
    using s2(9) c(4) s1(2) by (simp add: set_root_def)
  from is_tree_frame [OF this] u1 have "is_tree ?s' (Some c) None u" by simp
  moreover have "root ?s' other = Some c"
    using assms(1) s2(8) r1 by (simp add: set_root_def)
  moreover have "\<forall>x \<in> set (addrs u). x < nxt ?s'"
    using c(4) s1(2) s2(7) by (auto simp: set_root_def)
  ultimately have w2: "wf_dict ?s' other u"
    using c(3) by (simp add: wf_dict_def)
  have "set (addrs u') \<inter> set (addrs u) = {}"
    using s2(6) c(4) s1(2) by auto
  with run w1 w2 s2(3,4) show ?thesis by blast
qed

section \<open>The claims\<close>


text \<open>
  C1. Claim: for every sequence of \<open>add\<close> and \<open>remove\<close> operations applied to an
  initially empty dictionary, after each operation the keys that the iteration
  from \<open>begin()\<close> to \<open>end()\<close> produces are strictly ascending.

  The code does not get that far on the specification's own scenario: with the
  keys 5, 3, 8, 1, 4, 7, 9 added, \<open>remove(5)\<close> finds the key at the root, so the
  search loop never runs its body, and the test \<open>remove == nullptr\<close> reads the
  local pointer \<open>remove\<close> that nothing was assigned to. No state after the
  operation is defined, and no iteration.

  Lemma \<open>run_iteration\<close> above is what the code does keep of the claim: when
  every operation of a sequence returns (no \<open>remove\<close> meets the key at the root
  or an empty dictionary), the iteration returns the keys the sequence leaves,
  in strictly ascending order.
\<close>

theorem C1_remove_of_root_key_reads_uninitialised:
  "run 0 (seven @ [Remove 5]) empty_state = fail UninitRead \<and>
   bind_res (run 0 (seven @ [Remove 5]) empty_state) (iteration 0) = fail UninitRead"
  by (simp add: seven_def model_defs model_simps cong: bind_res_weak_cong)

text \<open>
  C2. Claim: \<open>remove\<close> of a present key whose node is not a leaf removes the
  replacement key (the maximum of the left subtree if there is a left child,
  else the minimum of the right subtree) and then overwrites the node's key and
  its value with the replacement's key and value.

  The code assigns \<open>remove->data = replacement\<close> and leaves \<open>remove->value\<close> as
  it was. With 5, 3, 1 added (values "five", "three", "one"), \<open>remove(3)\<close>
  moves the key 1 into the node of 3, and the value read for 1 afterwards is
  "three".

  Lemma \<open>remove_tree\<close> above covers the rest of the claim for every key below
  the root of a well-formed dictionary in search order: the replacement is
  chosen as claimed, the recursion returns, and the tree left is
  \<open>del key t\<close>, in which the node has the replacement's key and its own old
  value.
\<close>

theorem C2_remove_keeps_value_of_removed_key:
  "bind_res (run 0 [Add 5 ''five'', Add 3 ''three'', Add 1 ''one'', Remove (3::int)] empty_state)
     (\<lambda>s. bind_res (has 0 3 s) (\<lambda>h3. bind_res (get_const 0 1 s) (\<lambda>v1.
        bind_res (iteration 0 s) (\<lambda>ks. ok (h3, v1, ks)))))
   = ok (False, ''three'', [1, 5])"
  by (simp add: model_defs model_simps cong: bind_res_weak_cong)

text \<open>
  C3. Claim: for a key that is not present, the mutable \<open>get\<close> inserts a node for
  the key and returns a reference to the value of exactly that node; afterwards
  \<open>has(key)\<close> is true.

  On the empty dictionary the insertion loop is skipped and \<open>return p->value\<close>
  runs with \<open>p == nullptr\<close>. When the key goes to the left of a node, the code
  returns \<open>p->right->value\<close>: a null dereference when that node has no right
  child (keys 5, then \<open>get(3)\<close>), and the value of another key when it has one
  (keys 5 and 8, then \<open>get(3)\<close>: the new node is at address 2, the reference
  returned is to the node at address 1, which holds the key 8).
\<close>

theorem C3_get_of_absent_key:
  "get dv 0 key (empty_state :: ('k::linorder, 'v) state) = fail NullDeref \<and>
   bind_res (run 0 [Add (5::int) ''five''] empty_state) (get [] 0 3) = fail NullDeref \<and>
   bind_res (run 0 [Add (5::int) ''five'', Add 8 ''eight''] empty_state)
     (\<lambda>s. bind_res (get [] 0 3 s) (\<lambda>(a, s1). bind_res (deref s1 (Some a)) (\<lambda>n.
        bind_res (has_loop s1 (Some 2) 3) (\<lambda>h. ok (a, data n, val n, h)))))
   = ok (1, 8, ''eight'', True)"
  by (simp add: model_defs model_simps cong: bind_res_weak_cong)

text \<open>
  C4. Claim: for every dictionary, the empty one included, and every key,
  \<open>has(key)\<close> is false after \<open>remove(key)\<close>, and \<open>remove\<close> of a key that is not
  present is a no-op that signals no error.

  On the empty dictionary, and whenever the key is the root's key, the search
  loop of \<open>remove\<close> never runs its body and the code then reads the local
  pointer \<open>remove\<close>, which was never assigned (lemma \<open>remove_uninit\<close> above,
  for every well-formed dictionary). For every other key of a well-formed
  dictionary in search order the claim holds (lemma \<open>remove_wf\<close>): the call
  returns, the key is gone, and the state is unchanged if the key was absent.
\<close>

theorem C4_remove_on_empty_and_at_root:
  "remove 0 key (empty_state :: ('k::linorder, 'v) state) = fail UninitRead \<and>
   bind_res (run 0 [Add (5::int) ''five''] empty_state) (remove 0 5) = fail UninitRead"
  by (simp add: model_defs model_simps cong: bind_res_weak_cong)

text \<open>
  C5. Claim: copy construction and copy assignment produce a deep copy that
  clones the key and the value of every node.

  The copy constructor default-constructs the target and assigns to it, and
  the assignment calls \<open>freeNodes\<close> on the null root: every copy construction
  dereferences a null pointer. Copy assignment into a dictionary that is not
  empty does return, but \<open>Node::copy\<close> clones the key only: the clone of the
  entry 5 with value "five" reads as the default value (here the empty
  string). Lemma \<open>copy_assign_wf\<close> above: between two well-formed dictionaries
  that are not empty, the copy holds the source's keys on new nodes, every value
  in it is the default value, and the source is as it was.
\<close>

theorem C5_copy_loses_values:
  "bind_res (run 0 [Add (5::int) ''five''] empty_state) (copy_construct [] 1 0) = fail NullDeref \<and>
   bind_res (run 0 [Add (5::int) ''five''] empty_state) (\<lambda>s.
     bind_res (run 1 [Add 7 ''seven''] s) (\<lambda>s1.
     bind_res (copy_assign [] 1 0 s1) (\<lambda>s2.
     bind_res (get_const 0 5 s2) (\<lambda>v0.
     bind_res (get_const 1 5 s2) (\<lambda>v1. ok (v0, v1))))))
   = ok (''five'', [])"
  by (simp add: model_defs model_simps cong: bind_res_weak_cong)

text \<open>
  C6. For every well-formed dictionary whose keys are in search order, and every
  key: the const \<open>get\<close> throws \<open>std::invalid_argument\<close> if and only if the
  key is not among the dictionary's keys, and otherwise returns the value of
  the entry with that key; \<open>has\<close> tells which of the two happens. The
  function reads the state and returns no state: its source has no assignment.
\<close>

theorem C6_get_const:
  assumes "wf_dict s d t" and "bst t"
  shows "has d key s = ok (key \<in> set (keys t)) \<and>
         get_const d key s =
           (case map_of (entries t) key of None \<Rightarrow> fail InvalidArgument | Some v \<Rightarrow> ok v) \<and>
         ((get_const d key s = fail InvalidArgument) = (key \<notin> set (keys t)))"
proof -
  from assms(1) have t: "is_tree s (root s d) None t"
    by (simp add: wf_dict_def)
  have h: "has d key s = ok (key \<in> set (keys t))"
    using has_loop_tree [OF t, of key] has_tree_bst [OF assms(2), of key] by (simp add: has_def)
  have g: "get_const d key s =
      (case map_of (entries t) key of None \<Rightarrow> fail InvalidArgument | Some v \<Rightarrow> ok v)"
  proof (cases "find_tree t key")
    case None
    then have "\<not> has_tree t key" by (simp add: find_tree_has)
    moreover from None find_tree_bst [OF assms(2), of key] have "map_of (entries t) key = None"
      by simp
    ultimately show ?thesis
      using has_loop_tree [OF t, of key] by (simp add: get_const_def has_def)
  next
    case (Some av)
    obtain a v where av: "av = (a, v)" by (cases av)
    from Some av find_tree_heap [OF t, of key a v] obtain n where
      n: "heap s a = Some n" "data n = key" "val n = v" by auto
    from Some have "has_tree t key" using find_tree_has [of t key] by simp
    moreover from Some av find_tree_bst [OF assms(2), of key] have "map_of (entries t) key = Some v"
      by simp
    ultimately show ?thesis
      using has_loop_tree [OF t, of key] get_found_tree [OF t, of key] Some av n
      by (simp add: get_const_def has_def)
  qed
  have "(map_of (entries t) key = None) = (key \<notin> set (keys t))"
    by (simp add: map_of_eq_None_iff keys_entries)
  with g have "(get_const d key s = fail InvalidArgument) = (key \<notin> set (keys t))"
    by (auto split: option.splits)
  with h g show ?thesis by simp
qed

theorem C6_get_const_witness:
  "wf_dict state_538 0 tree_538 \<and> bst tree_538 \<and>
   has 0 8 state_538 = ok True \<and> get_const 0 8 state_538 = ok ''eight'' \<and>
   has 0 4 state_538 = ok False \<and> get_const 0 4 state_538 = fail InvalidArgument"
  using C6_get_const [of state_538 0 tree_538 8] C6_get_const [of state_538 0 tree_538 4]
    state_538_wf by (simp add: tree_538_def)

text \<open>
  C7. For every well-formed dictionary, key and value: \<open>add(key, value)\<close>
  returns, \<open>has(key)\<close> is true afterwards, and if \<open>has(key)\<close> was true before
  the call then the call leaves the whole state as it was (no node is
  allocated, no pointer and no value is changed).
\<close>

theorem C7_add:
  assumes "wf_dict s d t"
  shows "\<exists>s'. add d key v s = ok s' \<and> has d key s' = ok True \<and>
           (has d key s = ok True \<longrightarrow> s' = s)"
proof (cases "root s d")
  case None
  let ?s' = "set_root d (Some (nxt s)) (snd (new_node (Node_kv key v) s))"
  have "add d key v s = ok ?s'"
    using None by (simp add: add_def new_node_def)
  moreover have "has d key ?s' = ok True"
    by (subst has_def, subst has_loop.simps)
       (simp add: set_root_def new_node_def Node_kv_def)
  moreover have "has d key s = ok False"
    using None by (subst has_def, subst has_loop.simps) simp
  ultimately show ?thesis by simp
next
  case (Some p)
  from assms Some have t: "is_tree s (Some p) None t" "distinct (addrs t)"
    "\<forall>a \<in> set (addrs t). a < nxt s"
    by (simp_all add: wf_dict_def)
  from add_loop_tree [OF t, of key v] obtain s' where s':
    "add_loop key v p s = ok s'"
    "is_tree s' (Some p) None (ins_tree key v (nxt s) t)"
    "root s' = root s"
    "has_tree t key \<longrightarrow> s' = s"
    by blast
  have "add d key v s = ok s'"
    using Some s'(1) by (simp add: add_def)
  moreover have "has d key s' = ok True"
    using has_loop_tree [OF s'(2), of key] s'(3) Some by (simp add: has_def has_tree_ins)
  moreover have "has d key s = ok (has_tree t key)"
    using has_loop_tree [OF t(1), of key] Some by (simp add: has_def)
  ultimately show ?thesis
    using s'(4) by simp
qed

theorem C7_add_witness:
  "wf_dict state_538 0 tree_538 \<and>
   has 0 3 state_538 = ok True \<and> add 0 3 ''again'' state_538 = ok state_538 \<and>
   has 0 4 state_538 = ok False \<and>
   bind_res (add 0 4 ''four'' state_538) (has 0 4) = ok True"
proof -
  have wf: "wf_dict state_538 0 tree_538"
    using state_538_wf by simp
  have h3: "has 0 3 state_538 = ok True" and h4: "has 0 4 state_538 = ok False"
    by (simp_all add: state_538_def result_state_def model_defs model_simps
        cong: bind_res_weak_cong)
  from C7_add [OF wf, of 3 "''again''"] h3 have "add 0 3 ''again'' state_538 = ok state_538"
    by auto
  moreover from C7_add [OF wf, of 4 "''four''"]
  have "bind_res (add 0 4 ''four'' state_538) (has 0 4) = ok True"
    by auto
  ultimately show ?thesis
    using wf h3 h4 by simp
qed


text \<open>
  C8. Claim: move construction and move assignment exchange the root pointers
  without copying a node, and the target of a move construction holds the
  source's contents afterwards.

  Move assignment swaps the two roots. The move constructor, however, runs
  \<open>*this = temp\<close> with the named parameter \<open>temp\<close>, which calls the copy
  assignment: \<open>freeNodes\<close> is called on the null root of the new object and
  dereferences it.
\<close>

theorem C8_move_construct_dereferences_null:
  "root (move_assign this temp s) this = root s temp \<and>
   root (move_assign this temp s) temp = root s this \<and>
   heap (move_assign this temp s) = heap s \<and> nxt (move_assign this temp s) = nxt s \<and>
   bind_res (run 0 [Add (5::int) ''five''] empty_state) (move_construct [] 1 0) = fail NullDeref \<and>
   bind_res (run 0 [Add (5::int) ''five''] empty_state) (\<lambda>s.
     bind_res (has 1 5 (move_assign 1 0 s)) (\<lambda>h1.
     bind_res (has 0 5 (move_assign 1 0 s)) (\<lambda>h0. ok (h1, h0, nxt (move_assign 1 0 s) = nxt s))))
   = ok (True, False, True)"
  by (simp add: model_defs model_simps cong: bind_res_weak_cong)

text \<open>
  C9. Claim: on the empty dictionary \<open>has(k)\<close> is false for every key, and
  \<open>begin()\<close> returns a position equal to \<open>end()\<close>.

  \<open>has\<close> does return false. \<open>begin()\<close> evaluates \<open>p->hasLeft()\<close> with
  \<open>p == nullptr\<close>; the overload \<open>begin(k)\<close> tests \<open>p != nullptr\<close> first and
  returns the end position.
\<close>

theorem C9_begin_on_empty_dereferences_null:
  "has 0 key (empty_state :: ('k::linorder, 'v) state) = ok False \<and>
   begin_it 0 (empty_state :: ('k::linorder, 'v) state) = fail NullDeref \<and>
   begin_key 0 key (empty_state :: ('k::linorder, 'v) state) = ok end_it"
  by (simp add: model_defs model_simps cong: bind_res_weak_cong)

text \<open>
  C10. Claim: destroying an empty dictionary, copy-assigning into any
  dictionary, and copy-assigning or copy-constructing from an empty source all
  reach a null dereference, because \<open>freeNodes\<close> and \<open>copy\<close> assume a node
  and their callers do not test the root.

  As amended, one conjunct of the theorem for each sentence:
  \<^enum> destroying an empty dictionary ends in a null dereference;
  \<^enum> copy-assigning into an empty dictionary from a different dictionary object
    ends in a null dereference, whatever the source holds;
  \<^enum> copy-constructing an object from a different dictionary object ends in a
    null dereference, whatever the source holds (the constructor assigns into
    the new, empty object);
  \<^enum> copy-assigning from an empty source into a different, well-formed
    dictionary ends in a null dereference;
  \<^enum> self-assignment (\<open>this == &other\<close>, the test of the assignment operator)
    returns and leaves the state as it was, on every state, empty dictionary
    or not;
  \<^enum> copy-assigning from a well-formed dictionary that is not empty into a
    different well-formed dictionary that is not empty and shares no node with
    the source returns normally.

  Well-formed is \<open>wf_dict\<close>: the root points to a finite tree of allocated
  nodes with their \<open>back\<close> pointers, no node occurs twice in it, and every node
  of it was handed out by \<open>new\<close>. The counterexample below is an instance of
  the last sentence.
\<close>

theorem C10_null_root:
  "(root s d = None \<longrightarrow> destroy d s = fail NullDeref) \<and>
   (this \<noteq> other \<and> root s this = None \<longrightarrow> copy_assign dv this other s = fail NullDeref) \<and>
   (this \<noteq> other \<longrightarrow> copy_construct dv this other s = fail NullDeref) \<and>
   (this \<noteq> other \<and> wf_dict s this t \<and> root s other = None \<longrightarrow>
      copy_assign dv this other s = fail NullDeref) \<and>
   copy_assign dv d d s = ok s \<and>
   (this \<noteq> other \<and> wf_dict s this t \<and> t \<noteq> Leaf \<and> wf_dict s other u \<and> u \<noteq> Leaf \<and>
    set (addrs t) \<inter> set (addrs u) = {} \<longrightarrow>
      (\<exists>s'. copy_assign dv this other s = ok s'))"
proof -
  have free: "freeNodes (RootSlot x) s' = fail NullDeref" if "root s' x = None" for x
    and s' :: "('a, 'b) state"
    using that by (intro freeNodes_null) (simp add: read_slot_def)
  have a: "root s d = None \<longrightarrow> destroy d s = fail NullDeref"
    by (simp add: destroy_def free)
  have b: "copy_assign dv x y s' = fail NullDeref" if "x \<noteq> y" "root s' x = None" for x y
    and s' :: "('a, 'b) state"
    using that by (simp add: copy_assign_def free)
  have c: "this \<noteq> other \<longrightarrow> copy_construct dv this other s = fail NullDeref"
    by (simp add: copy_construct_def construct_def b set_root_def)
  have d: "copy_assign dv this other s = fail NullDeref"
    if neq: "this \<noteq> other" and wf: "wf_dict s this t" and src: "root s other = None"
  proof (cases "root s this")
    case None
    with neq show ?thesis by (simp add: b)
  next
    case (Some a)
    from wf Some have t: "is_tree s (Some a) None t" "distinct (addrs t)"
      by (simp_all add: wf_dict_def)
    have rd: "read_slot (RootSlot this) s = ok (Some a)"
      using Some by (simp add: read_slot_def)
    have "slot_node (RootSlot this) \<notin> Some ` set (addrs t)" by simp
    from freeNodes_tree [OF t rd this] obtain s1 where s1:
      "freeNodes (RootSlot this) s = ok s1"
      "\<forall>d. RootSlot this \<noteq> RootSlot d \<longrightarrow> root s1 d = root s d"
      by blast
    from s1(2) neq src have "root s1 other = None" by simp
    with neq s1(1) show ?thesis
      by (simp add: copy_assign_def copy_null)
  qed
  have e: "\<exists>s'. copy_assign dv this other s = ok s'"
    if "this \<noteq> other" "wf_dict s this t" "t \<noteq> Leaf" "wf_dict s other u" "u \<noteq> Leaf"
      "set (addrs t) \<inter> set (addrs u) = {}"
    using copy_assign_wf [OF that, of dv] by blast
  have f: "copy_assign dv d d s = ok s"
    by (simp add: copy_assign_def)
  from a b c d e f show ?thesis by blast
qed

theorem C10_null_root_witness:
  "destroy 0 (empty_state :: (int, string) state) = fail NullDeref \<and>
   copy_assign [] 1 0 state_538 = fail NullDeref \<and>
   copy_construct [] 1 0 state_538 = fail NullDeref \<and>
   copy_assign [] 0 1 state_538 = fail NullDeref \<and>
   copy_assign [] 1 1 state_538 = ok state_538 \<and>
   (\<exists>s'. copy_assign [] 1 0 state_538_7 = ok s')"
proof -
  have e: "root (empty_state :: (int, string) state) 0 = None"
    by (simp add: empty_state_def)
  have r: "root state_538 1 = None"
    using state_538_7_facts by simp
  have wf: "wf_dict state_538 0 tree_538"
    using state_538_wf by simp
  have n: "(1::nat) \<noteq> 0" "(0::nat) \<noteq> 1" by simp_all
  have wf7: "wf_dict state_538_7 0 tree_538" "wf_dict state_538_7 1 tree_7"
    using state_538_7_facts by simp_all
  have ne: "tree_538 \<noteq> Leaf" "tree_7 \<noteq> Leaf" "set (addrs tree_7) \<inter> set (addrs tree_538) = {}"
    by (simp_all add: tree_538_def tree_7_def)
  from C10_null_root [of "empty_state :: (int, string) state" 0 1 0 "[]" tree_538 tree_538] e
  have "destroy 0 (empty_state :: (int, string) state) = fail NullDeref" by blast
  moreover from C10_null_root [of state_538 0 1 0 "[]" tree_538 tree_538] r n
  have "copy_assign [] 1 0 state_538 = fail NullDeref"
    and "copy_construct [] 1 0 state_538 = fail NullDeref" by blast+
  moreover from C10_null_root [of state_538 0 0 1 "[]" tree_538 tree_538] r n wf
  have "copy_assign [] 0 1 state_538 = fail NullDeref" by blast
  moreover from C10_null_root [of state_538 1 1 0 "[]" tree_538 tree_538]
  have "copy_assign [] 1 1 state_538 = ok state_538" by blast
  moreover from C10_null_root [of state_538_7 0 1 0 "[]" tree_7 tree_538] n wf7 ne
  have "\<exists>s'. copy_assign [] 1 0 state_538_7 = ok s'" by blast
  ultimately show ?thesis by simp
qed

theorem C10_copy_assign_counterexample:
  "root state_538_7 1 \<noteq> None \<and> root state_538_7 0 \<noteq> None \<and>
   copy_assign [] 1 0 state_538_7 \<noteq> fail NullDeref \<and>
   bind_res (copy_assign [] 1 0 state_538_7) (iteration 1) = ok [3, 5, 8]"
  by (simp add: state_538_7_def state_538_def result_state_def
      model_defs model_simps cong: bind_res_weak_cong)

end
